theory Spec2Isabelle
  imports Complex_Main "HOL-Library.Word"
begin

section \<open>Data model of the track-finding kernels\<close>

text \<open>
  The two device functions verified here are \<^verbatim>\<open>find_tracks\<close> (find_tracks.ipp) and
  \<^verbatim>\<open>build_tracks\<close> (build_tracks.ipp).  Every \<^verbatim>\<open>unsigned int\<close> of the source is a
  32-bit word, so additions and subtractions wrap as they do in C++.  A
  \<^verbatim>\<open>traccc::scalar\<close> is modelled as a real number: comparisons and sums are exact.
  An \<^verbatim>\<open>assert\<close> that fails, a bounds-checked access that is out of range and an
  append beyond a buffer's capacity are faults: every function that can hit one
  returns \<open>Inl\<close> of the fault.
\<close>

type_synonym u32 = "32 word"
type_synonym barcode = "64 word"
type_synonym scalar = real

datatype fault = Assertion_failed | Out_of_range | Capacity_exceeded

record candidate_link =
  step :: u32
  previous_candidate_idx :: u32
  meas_idx :: u32
  seed_idx :: u32
  n_skipped :: u32
  chi2 :: scalar

record finding_config =
  max_num_branches_per_seed :: u32
  max_track_candidates_per_track :: u32
  min_track_candidates_per_track :: u32
  max_num_skipping_per_cand :: u32
  chi2_max :: scalar

text \<open>
  Of a measurement the kernels read the surface it lies on and its dimension; of
  a bound track parameter set they read the surface it is bound to.  The bound
  vector stands for the rest of the parameters, which the kernels only copy.
\<close>

record measurement =
  meas_surface_link :: barcode
  meas_dim :: u32
  measurement_id :: nat

record bound_track_parameters =
  surface_link :: barcode
  bound_vector :: "scalar list"

text \<open>
  The Kalman update (\<^verbatim>\<open>gain_matrix_updater\<close>, applied through the surface's mask) is
  an external function: it receives the predicted parameters and the
  measurement and returns a status together with the updated track state.  The
  kernel compares the status with \<open>SUCCESS\<close> only, so all other codes are
  collected under \<open>ERROR_CODE\<close>.
\<close>

datatype kalman_fitter_status = SUCCESS | ERROR_CODE nat

record track_state =
  filtered_chi2 :: scalar
  filtered :: bound_track_parameters

type_synonym gain_matrix_updater =
  "bound_track_parameters \<Rightarrow> measurement \<Rightarrow> kalman_fitter_status \<times> track_state"

text \<open>
  The payload of \<^verbatim>\<open>find_tracks\<close>, split in two: the views the kernel only reads
  (with the capacities of the two resizable vectors), and the vectors it writes.
\<close>

record find_tracks_payload =
  measurements_view :: "measurement list"
  in_params_view :: "bound_track_parameters list"
  in_params_liveness_view :: "u32 list"
  n_in_params :: u32
  barcodes_view :: "barcode list"
  upper_bounds_view :: "u32 list"
  payload_step :: u32
  prev_links_idx :: u32
  curr_links_idx :: u32
  links_capacity :: u32
  tips_capacity :: u32

record global_state =
  links :: "candidate_link list"
  out_params :: "bound_track_parameters list"
  out_params_liveness :: "u32 list"
  tips :: "u32 list"
  n_tracks_per_seed :: "u32 list"

record find_tracks_shared_payload =
  shared_num_candidates :: "u32 list"
  shared_candidates :: "(u32 \<times> u32) list"
  shared_candidates_size :: u32

record thread_id =
  getLocalThreadIdX :: u32
  getBlockIdX :: u32
  getBlockDimX :: u32

definition getGlobalThreadIdX :: "thread_id \<Rightarrow> u32" where
  "getGlobalThreadIdX t = getBlockIdX t * getBlockDimX t + getLocalThreadIdX t"

subsection \<open>Vector accesses\<close>

definition at_vec :: "'a list \<Rightarrow> u32 \<Rightarrow> fault + 'a" where
  "at_vec xs i = (if unat i < length xs then Inr (xs ! unat i) else Inl Out_of_range)"

definition set_vec :: "'a list \<Rightarrow> u32 \<Rightarrow> 'a \<Rightarrow> fault + 'a list" where
  "set_vec xs i v = (if unat i < length xs then Inr (xs[unat i := v]) else Inl Out_of_range)"

text \<open>
  \<^verbatim>\<open>bulk_append_implicit(1)\<close> and \<^verbatim>\<open>push_back\<close> of a resizable device vector: the
  size is incremented atomically, the old size is the position of the new
  element, and the position must lie within the capacity.
\<close>

definition push_back_vec :: "u32 \<Rightarrow> 'a list \<Rightarrow> 'a \<Rightarrow> fault + 'a list" where
  "push_back_vec cap xs v = (if length xs < unat cap then Inr (xs @ [v]) else Inl Capacity_exceeded)"

definition fetch_add_vec :: "u32 list \<Rightarrow> u32 \<Rightarrow> fault + (u32 \<times> u32 list)" where
  "fetch_add_vec xs i =
     (if unat i < length xs then Inr (xs ! unat i, xs[unat i := xs ! unat i + 1])
      else Inl Out_of_range)"

subsection \<open>Step 1: the measurements of a parameter's surface\<close>

text \<open>
  \<^verbatim>\<open>thrust::lower_bound\<close> with the sequential policy is the binary search of the
  Thrust library: the first position in \<open>[start, n)\<close> whose element is not less
  than the searched one.
\<close>

function lower_bound_n :: "barcode list \<Rightarrow> nat \<Rightarrow> nat \<Rightarrow> barcode \<Rightarrow> nat" where
  "lower_bound_n xs start n v =
     (if start < n then
        (let i = (start + n) div 2 in
         if xs ! i < v then lower_bound_n xs (i + 1) n v else lower_bound_n xs start i v)
      else start)"
  by pat_completeness auto
termination
  by (relation "measure (\<lambda>(xs, start, n, v). n - start)") auto

definition lower_bound :: "barcode list \<Rightarrow> barcode \<Rightarrow> nat" where
  "lower_bound xs v = lower_bound_n xs 0 (length xs) v"

text \<open>
  Lines 91 to 126: the first measurement and the number of measurements of the
  thread's parameter.  The result is \<open>(init_meas, num_meas)\<close>.
\<close>

definition find_meas_range :: "find_tracks_payload \<Rightarrow> u32 \<Rightarrow> fault + (u32 \<times> u32)" where
  "find_meas_range pl in_param_id =
     (if in_param_id < n_in_params pl then
        (case at_vec (in_params_liveness_view pl) in_param_id of
           Inl e \<Rightarrow> Inl e
         | Inr live \<Rightarrow>
             if live > 0 then
               (case at_vec (in_params_view pl) in_param_id of
                  Inl e \<Rightarrow> Inl e
                | Inr par \<Rightarrow>
                    (let bcd = surface_link par;
                         lo = lower_bound (barcodes_view pl) bcd
                     in if lo = length (barcodes_view pl) then Inr (0, 0)
                        else
                          (case (if lo = 0 then Inr 0
                                 else at_vec (upper_bounds_view pl) (of_nat (lo - 1))) of
                             Inl e \<Rightarrow> Inl e
                           | Inr init_meas \<Rightarrow>
                               (case at_vec (upper_bounds_view pl) (of_nat lo) of
                                  Inl e \<Rightarrow> Inl e
                                | Inr ub \<Rightarrow> Inr (init_meas, ub - init_meas)))))
             else Inr (0, 0))
      else Inr (0, 0))"

section \<open>The kernel \<^verbatim>\<open>find_tracks\<close> as atomic steps of its threads\<close>

text \<open>
  The kernel runs on a grid of blocks of threads.  A thread's execution is cut
  into atomic steps at its accesses to memory that other threads write
  concurrently (the atomic counters, the shared candidate buffer and its size,
  the resizable link and tip vectors) and at the barriers.  The program counter
  names the next step; the values of the thread's local variables that are live
  across steps are stored with it.  A slot of the link vector reserved by
  \<^verbatim>\<open>bulk_append_implicit\<close> is written by the reserving thread before anyone reads it,
  so reserving and writing the slot is one step.
\<close>

datatype pc =
    Init_shared
  | Barrier_init
  | Find_range
  | Vote
  | Block_or bool
  | Enqueue_cond
  | Enqueue_seed
  | Enqueue_push
  | Barrier_enqueued
  | Process_load
  | Saturated u32
  | Count_candidate u32 u32 u32 u32 track_state
  | Reserve_branch u32 u32 u32 track_state
  | Append_link u32 u32 u32 track_state
  | Barrier_processed
  | Compact
  | Hole_check
  | Hole_reserve u32 u32
  | Hole_commit u32 u32
  | Return

record thread_state =
  pc :: pc
  init_meas :: u32
  num_meas :: u32
  curr_meas :: u32

type_synonym view = "global_state \<times> find_tracks_shared_payload \<times> thread_state"

definition last_step :: "finding_config \<Rightarrow> find_tracks_payload \<Rightarrow> bool" where
  "last_step cfg pl \<longleftrightarrow> payload_step pl = max_track_candidates_per_track cfg - 1"

text \<open>Lines 47 to 51: thread 0 empties the shared buffer, every thread clears its counter.\<close>

definition init_shared :: "thread_id \<Rightarrow> view \<Rightarrow> fault + view" where
  "init_shared tid v =
     (case v of (g, sh, th) \<Rightarrow>
        (let sh1 = (if getLocalThreadIdX tid = 0 then sh\<lparr>shared_candidates_size := 0\<rparr> else sh)
         in case set_vec (shared_num_candidates sh1) (getLocalThreadIdX tid) 0 of
              Inl e \<Rightarrow> Inl e
            | Inr snc \<Rightarrow> Inr (g, sh1\<lparr>shared_num_candidates := snc\<rparr>, th\<lparr>pc := Barrier_init\<rparr>)))"

text \<open>Lines 78 to 141: step 1 of the kernel, and the cursor \<open>curr_meas\<close> set to zero.\<close>

definition find_range :: "find_tracks_payload \<Rightarrow> thread_id \<Rightarrow> view \<Rightarrow> fault + view" where
  "find_range pl tid v =
     (case v of (g, sh, th) \<Rightarrow>
        (case find_meas_range pl (getGlobalThreadIdX tid) of
           Inl e \<Rightarrow> Inl e
         | Inr (i, n) \<Rightarrow>
             Inr (g, sh, th\<lparr>pc := Vote, init_meas := i, num_meas := n, curr_meas := 0\<rparr>)))"

text \<open>Line 147: the thread's operand of \<^verbatim>\<open>blockOr\<close>.\<close>

definition vote :: "view \<Rightarrow> fault + view" where
  "vote v =
     (case v of (g, sh, th) \<Rightarrow>
        Inr (g, sh, th\<lparr>pc := Block_or (curr_meas th < num_meas th \<or> shared_candidates_size sh > 0)\<rparr>))"

text \<open>Lines 158 and 159: the condition of the enqueue loop.\<close>

definition enqueue_cond :: "thread_id \<Rightarrow> view \<Rightarrow> fault + view" where
  "enqueue_cond tid v =
     (case v of (g, sh, th) \<Rightarrow>
        Inr (g, sh,
             th\<lparr>pc := (if curr_meas th < num_meas th \<and> shared_candidates_size sh < getBlockDimX tid
                         then Enqueue_seed else Barrier_enqueued)\<rparr>))"

text \<open>Lines 161 to 171: a thread whose seed is saturated gives up its remaining measurements.\<close>

definition slot_seed :: "find_tracks_payload \<Rightarrow> global_state \<Rightarrow> u32 \<Rightarrow> fault + u32" where
  "slot_seed pl g slot =
     (if payload_step pl = 0 then Inr slot
      else case at_vec (links g) (prev_links_idx pl + slot) of
             Inl e \<Rightarrow> Inl e
           | Inr l \<Rightarrow> Inr (seed_idx l))"

definition enqueue_seed :: "finding_config \<Rightarrow> find_tracks_payload \<Rightarrow> thread_id \<Rightarrow> view \<Rightarrow> fault + view" where
  "enqueue_seed cfg pl tid v =
     (case v of (g, sh, th) \<Rightarrow>
        (case slot_seed pl g (getGlobalThreadIdX tid) of
           Inl e \<Rightarrow> Inl e
         | Inr seed \<Rightarrow>
             (case at_vec (n_tracks_per_seed g) seed of
                Inl e \<Rightarrow> Inl e
              | Inr n \<Rightarrow>
                  if n \<ge> max_num_branches_per_seed cfg
                  then Inr (g, sh, th\<lparr>pc := Barrier_enqueued, curr_meas := num_meas th\<rparr>)
                  else Inr (g, sh, th\<lparr>pc := Enqueue_push\<rparr>))))"

text \<open>Lines 172 to 184, and the increment of the cursor of line 160.\<close>

definition enqueue_push :: "thread_id \<Rightarrow> view \<Rightarrow> fault + view" where
  "enqueue_push tid v =
     (case v of (g, sh, th) \<Rightarrow>
        (let idx = shared_candidates_size sh in
         case set_vec (shared_candidates sh) idx (init_meas th + curr_meas th, getLocalThreadIdX tid) of
           Inl e \<Rightarrow> Inl e
         | Inr buf \<Rightarrow>
             Inr (g, sh\<lparr>shared_candidates := buf, shared_candidates_size := idx + 1\<rparr>,
                  th\<lparr>pc := Enqueue_cond, curr_meas := curr_meas th + 1\<rparr>)))"

text \<open>
  Lines 193 to 238: the thread picks the candidate at its own position of the
  shared buffer, loads the branch counter of the owner's seed and, when the
  seed is not saturated, runs the Kalman update.
\<close>

definition process_load ::
  "gain_matrix_updater \<Rightarrow> finding_config \<Rightarrow> find_tracks_payload \<Rightarrow> thread_id \<Rightarrow> view \<Rightarrow> fault + view" where
  "process_load upd cfg pl tid v =
     (case v of (g, sh, th) \<Rightarrow>
        if getLocalThreadIdX tid < shared_candidates_size sh then
          (case at_vec (shared_candidates sh) (getLocalThreadIdX tid) of
             Inl e \<Rightarrow> Inl e
           | Inr (meas_i, owner_local_thread_id) \<Rightarrow>
               (let owner_global_thread_id =
                      owner_local_thread_id + getBlockDimX tid * getBlockIdX tid
                in case at_vec (in_params_liveness_view pl) owner_global_thread_id of
                     Inl e \<Rightarrow> Inl e
                   | Inr live \<Rightarrow>
                       if live = 0 then Inl Assertion_failed
                       else
                         (case slot_seed pl g owner_global_thread_id of
                            Inl e \<Rightarrow> Inl e
                          | Inr seed \<Rightarrow>
                              (case at_vec (in_params_view pl) owner_global_thread_id of
                                 Inl e \<Rightarrow> Inl e
                               | Inr in_par \<Rightarrow>
                                   (case at_vec (measurements_view pl) meas_i of
                                      Inl e \<Rightarrow> Inl e
                                    | Inr meas \<Rightarrow>
                                        (case at_vec (n_tracks_per_seed g) seed of
                                           Inl e \<Rightarrow> Inl e
                                         | Inr n \<Rightarrow>
                                             if n < max_num_branches_per_seed cfg then
                                               (case upd in_par meas of
                                                  (res, trk) \<Rightarrow>
                                                    if res = SUCCESS \<and> filtered_chi2 trk < chi2_max cfg
                                                    then Inr (g, sh,
                                                           th\<lparr>pc := Count_candidate owner_local_thread_id
                                                                  (prev_links_idx pl + owner_global_thread_id)
                                                                  seed meas_i trk\<rparr>)
                                                    else Inr (g, sh, th\<lparr>pc := Barrier_processed\<rparr>))
                                             else Inr (g, sh, th\<lparr>pc := Saturated owner_local_thread_id\<rparr>)))))))
        else Inr (g, sh, th\<lparr>pc := Barrier_processed\<rparr>))"

text \<open>Line 241: the seed is exhausted; the owner's candidate counter is incremented.\<close>

definition saturated :: "u32 \<Rightarrow> view \<Rightarrow> fault + view" where
  "saturated owner_local_thread_id v =
     (case v of (g, sh, th) \<Rightarrow>
        (case fetch_add_vec (shared_num_candidates sh) owner_local_thread_id of
           Inl e \<Rightarrow> Inl e
         | Inr (old, snc) \<Rightarrow>
             Inr (g, sh\<lparr>shared_num_candidates := snc\<rparr>, th\<lparr>pc := Barrier_processed\<rparr>)))"

text \<open>Line 246: the update was accepted; the owner's candidate counter is incremented.\<close>

definition count_candidate :: "u32 \<Rightarrow> u32 \<Rightarrow> u32 \<Rightarrow> u32 \<Rightarrow> track_state \<Rightarrow> view \<Rightarrow> fault + view" where
  "count_candidate owner_local_thread_id prev_link_idx seed meas_i trk v =
     (case v of (g, sh, th) \<Rightarrow>
        (case fetch_add_vec (shared_num_candidates sh) owner_local_thread_id of
           Inl e \<Rightarrow> Inl e
         | Inr (old, snc) \<Rightarrow>
             Inr (g, sh\<lparr>shared_num_candidates := snc\<rparr>,
                  th\<lparr>pc := Reserve_branch prev_link_idx seed meas_i trk\<rparr>)))"

text \<open>Lines 248 and 249: the seed's branch counter is incremented; its old value decides.\<close>

definition reserve_branch ::
  "finding_config \<Rightarrow> u32 \<Rightarrow> u32 \<Rightarrow> u32 \<Rightarrow> track_state \<Rightarrow> view \<Rightarrow> fault + view" where
  "reserve_branch cfg prev_link_idx seed meas_i trk v =
     (case v of (g, sh, th) \<Rightarrow>
        (case fetch_add_vec (n_tracks_per_seed g) seed of
           Inl e \<Rightarrow> Inl e
         | Inr (s_pos, cnt) \<Rightarrow>
             Inr (g\<lparr>n_tracks_per_seed := cnt\<rparr>, sh,
                  th\<lparr>pc := (if s_pos < max_num_branches_per_seed cfg
                              then Append_link prev_link_idx seed meas_i trk
                              else Barrier_processed)\<rparr>)))"

definition parent_n_skipped :: "find_tracks_payload \<Rightarrow> global_state \<Rightarrow> u32 \<Rightarrow> fault + u32" where
  "parent_n_skipped pl g prev_link_idx =
     (if payload_step pl = 0 then Inr 0
      else case at_vec (links g) prev_link_idx of
             Inl e \<Rightarrow> Inl e
           | Inr l \<Rightarrow> Inr (n_skipped l))"

text \<open>
  The new link of a parameter set: the link is appended, and the parameters and
  their liveness are written at the link's position relative to the first link
  of this step (lines 254, 262 to 271 and 338 to 350).
\<close>

definition emplace_link ::
  "find_tracks_payload \<Rightarrow> global_state \<Rightarrow> candidate_link \<Rightarrow> bound_track_parameters \<Rightarrow> u32 \<Rightarrow>
     fault + (u32 \<times> global_state)" where
  "emplace_link pl g l par live =
     (case push_back_vec (links_capacity pl) (links g) l of
        Inl e \<Rightarrow> Inl e
      | Inr ls \<Rightarrow>
          (let l_pos = (of_nat (length (links g)) :: u32) in
           case set_vec (out_params g) (l_pos - curr_links_idx pl) par of
             Inl e \<Rightarrow> Inl e
           | Inr ps \<Rightarrow>
               (case set_vec (out_params_liveness g) (l_pos - curr_links_idx pl) live of
                  Inl e \<Rightarrow> Inl e
                | Inr lv \<Rightarrow>
                    Inr (l_pos, g\<lparr>links := ls, out_params := ps, out_params_liveness := lv\<rparr>))))"

text \<open>Lines 252 to 281: the measurement's link, and a tip at the last step.\<close>

definition append_link ::
  "finding_config \<Rightarrow> find_tracks_payload \<Rightarrow> u32 \<Rightarrow> u32 \<Rightarrow> u32 \<Rightarrow> track_state \<Rightarrow> view \<Rightarrow> fault + view" where
  "append_link cfg pl prev_link_idx seed meas_i trk v =
     (case v of (g, sh, th) \<Rightarrow>
        if length (links g) < unat (links_capacity pl) then
          if filtered_chi2 trk < 0 then Inl Assertion_failed
          else
            (case parent_n_skipped pl g prev_link_idx of
               Inl e \<Rightarrow> Inl e
             | Inr skipped \<Rightarrow>
                 (case emplace_link pl g
                         \<lparr>step = payload_step pl, previous_candidate_idx = prev_link_idx,
                          meas_idx = meas_i, seed_idx = seed, n_skipped = skipped,
                          chi2 = filtered_chi2 trk\<rparr>
                         (filtered trk) (if last_step cfg pl then 0 else 1) of
                    Inl e \<Rightarrow> Inl e
                  | Inr (l_pos, g1) \<Rightarrow>
                      (let n_cands = payload_step pl + 1 - skipped in
                       if last_step cfg pl \<and> n_cands \<ge> min_track_candidates_per_track cfg then
                         (case push_back_vec (tips_capacity pl) (tips g1) l_pos of
                            Inl e \<Rightarrow> Inl e
                          | Inr ts \<Rightarrow> Inr (g1\<lparr>tips := ts\<rparr>, sh, th\<lparr>pc := Barrier_processed\<rparr>))
                       else Inr (g1, sh, th\<lparr>pc := Barrier_processed\<rparr>))))
        else Inl Capacity_exceeded)"

text \<open>Lines 291 to 303: the spill-over moves to the front of the buffer.\<close>

definition compact :: "thread_id \<Rightarrow> view \<Rightarrow> fault + view" where
  "compact tid v =
     (case v of (g, sh, th) \<Rightarrow>
        (case at_vec (shared_candidates sh) (getLocalThreadIdX tid + getBlockDimX tid) of
           Inl e \<Rightarrow> Inl e
         | Inr c \<Rightarrow>
             (case set_vec (shared_candidates sh) (getLocalThreadIdX tid) c of
                Inl e \<Rightarrow> Inl e
              | Inr buf \<Rightarrow>
                  (let sh1 = sh\<lparr>shared_candidates := buf\<rparr>;
                       sh2 = (if getLocalThreadIdX tid = 0 then
                                sh1\<lparr>shared_candidates_size :=
                                      (if shared_candidates_size sh1 \<ge> getBlockDimX tid
                                       then shared_candidates_size sh1 - getBlockDimX tid else 0)\<rparr>
                              else sh1)
                   in Inr (g, sh2, th\<lparr>pc := Vote\<rparr>)))))"

text \<open>Lines 310 to 320: a live parameter set without any counted candidate gets a hole.\<close>

definition hole_check :: "find_tracks_payload \<Rightarrow> thread_id \<Rightarrow> view \<Rightarrow> fault + view" where
  "hole_check pl tid v =
     (case v of (g, sh, th) \<Rightarrow>
        (let in_param_id = getGlobalThreadIdX tid in
         if in_param_id < n_in_params pl then
           (case at_vec (in_params_liveness_view pl) in_param_id of
              Inl e \<Rightarrow> Inl e
            | Inr live \<Rightarrow>
                if live \<noteq> 0 then
                  (case at_vec (shared_num_candidates sh) (getLocalThreadIdX tid) of
                     Inl e \<Rightarrow> Inl e
                   | Inr n \<Rightarrow>
                       if n = 0 then
                         (case slot_seed pl g in_param_id of
                            Inl e \<Rightarrow> Inl e
                          | Inr seed \<Rightarrow>
                              (case at_vec (n_tracks_per_seed g) seed of
                                 Inl e \<Rightarrow> Inl e
                               | Inr c \<Rightarrow>
                                   Inr (g, sh,
                                        th\<lparr>pc := Hole_reserve (prev_links_idx pl + in_param_id) seed\<rparr>)))
                       else Inr (g, sh, th\<lparr>pc := Return\<rparr>))
                else Inr (g, sh, th\<lparr>pc := Return\<rparr>))
         else Inr (g, sh, th\<lparr>pc := Return\<rparr>)))"

text \<open>Lines 321 and 323.\<close>

definition hole_reserve :: "finding_config \<Rightarrow> u32 \<Rightarrow> u32 \<Rightarrow> view \<Rightarrow> fault + view" where
  "hole_reserve cfg prev_link_idx seed v =
     (case v of (g, sh, th) \<Rightarrow>
        (case fetch_add_vec (n_tracks_per_seed g) seed of
           Inl e \<Rightarrow> Inl e
         | Inr (s_pos, cnt) \<Rightarrow>
             Inr (g\<lparr>n_tracks_per_seed := cnt\<rparr>, sh,
                  th\<lparr>pc := (if s_pos < max_num_branches_per_seed cfg
                              then Hole_commit prev_link_idx seed else Return)\<rparr>)))"

text \<open>
  Lines 324 to 351: the branch ends with a tip at its current link, or goes on
  with a hole link.  The hole sentinel is the largest \<^verbatim>\<open>unsigned int\<close>, the chi-square
  of a hole the largest finite \<^verbatim>\<open>float\<close>.
\<close>

definition hole_meas_idx :: u32 where
  "hole_meas_idx = - 1"

definition scalar_max :: scalar where
  "scalar_max = 340282346638528859811704183484516925440"

definition hole_commit ::
  "finding_config \<Rightarrow> find_tracks_payload \<Rightarrow> thread_id \<Rightarrow> u32 \<Rightarrow> u32 \<Rightarrow> view \<Rightarrow> fault + view" where
  "hole_commit cfg pl tid prev_link_idx seed v =
     (case v of (g, sh, th) \<Rightarrow>
        (case parent_n_skipped pl g prev_link_idx of
           Inl e \<Rightarrow> Inl e
         | Inr skipped \<Rightarrow>
             if skipped \<ge> max_num_skipping_per_cand cfg \<or> last_step cfg pl then
               (let n_cands = payload_step pl - skipped in
                if n_cands \<ge> min_track_candidates_per_track cfg then
                  if payload_step pl > 0 then
                    (case push_back_vec (tips_capacity pl) (tips g) prev_link_idx of
                       Inl e \<Rightarrow> Inl e
                     | Inr ts \<Rightarrow> Inr (g\<lparr>tips := ts\<rparr>, sh, th\<lparr>pc := Return\<rparr>))
                  else Inl Assertion_failed
                else Inr (g, sh, th\<lparr>pc := Return\<rparr>))
             else
               (case at_vec (in_params_view pl) (getGlobalThreadIdX tid) of
                  Inl e \<Rightarrow> Inl e
                | Inr par \<Rightarrow>
                    (case emplace_link pl g
                            \<lparr>step = payload_step pl, previous_candidate_idx = prev_link_idx,
                             meas_idx = hole_meas_idx, seed_idx = seed, n_skipped = skipped + 1,
                             chi2 = scalar_max\<rparr>
                            par 1 of
                       Inl e \<Rightarrow> Inl e
                     | Inr (l_pos, g1) \<Rightarrow> Inr (g1, sh, th\<lparr>pc := Return\<rparr>)))))"

subsection \<open>Threads, barriers and schedules\<close>

text \<open>One atomic step of a thread that is not waiting at a barrier.\<close>

definition thread_step ::
  "gain_matrix_updater \<Rightarrow> finding_config \<Rightarrow> find_tracks_payload \<Rightarrow> thread_id \<Rightarrow> view \<Rightarrow> fault + view" where
  "thread_step upd cfg pl tid v =
     (case pc (snd (snd v)) of
        Init_shared \<Rightarrow> init_shared tid v
      | Find_range \<Rightarrow> find_range pl tid v
      | Vote \<Rightarrow> vote v
      | Enqueue_cond \<Rightarrow> enqueue_cond tid v
      | Enqueue_seed \<Rightarrow> enqueue_seed cfg pl tid v
      | Enqueue_push \<Rightarrow> enqueue_push tid v
      | Process_load \<Rightarrow> process_load upd cfg pl tid v
      | Saturated owner \<Rightarrow> saturated owner v
      | Count_candidate owner prev seed meas_i trk \<Rightarrow> count_candidate owner prev seed meas_i trk v
      | Reserve_branch prev seed meas_i trk \<Rightarrow> reserve_branch cfg prev seed meas_i trk v
      | Append_link prev seed meas_i trk \<Rightarrow> append_link cfg pl prev seed meas_i trk v
      | Compact \<Rightarrow> compact tid v
      | Hole_check \<Rightarrow> hole_check pl tid v
      | Hole_reserve prev seed \<Rightarrow> hole_reserve cfg prev seed v
      | Hole_commit prev seed \<Rightarrow> hole_commit cfg pl tid prev seed v
      | _ \<Rightarrow> Inr v)"

text \<open>
  The four barriers of the kernel: line 53, the \<^verbatim>\<open>blockOr\<close> of line 147, line 187
  and line 284.  A barrier opens when every thread of the block waits at it;
  \<^verbatim>\<open>blockOr\<close> hands every thread the disjunction of the operands.
\<close>

fun is_barrier :: "pc \<Rightarrow> bool" where
  "is_barrier Barrier_init = True"
| "is_barrier (Block_or b) = True"
| "is_barrier Barrier_enqueued = True"
| "is_barrier Barrier_processed = True"
| "is_barrier p = False"

fun same_barrier :: "pc \<Rightarrow> pc \<Rightarrow> bool" where
  "same_barrier Barrier_init p = (p = Barrier_init)"
| "same_barrier (Block_or b) p = (case p of Block_or c \<Rightarrow> True | _ \<Rightarrow> False)"
| "same_barrier Barrier_enqueued p = (p = Barrier_enqueued)"
| "same_barrier Barrier_processed p = (p = Barrier_processed)"
| "same_barrier q p = False"

fun after_barrier :: "bool \<Rightarrow> pc \<Rightarrow> pc" where
  "after_barrier any Barrier_init = Find_range"
| "after_barrier any (Block_or b) = (if any then Enqueue_cond else Hole_check)"
| "after_barrier any Barrier_enqueued = Process_load"
| "after_barrier any Barrier_processed = Compact"
| "after_barrier any p = p"

record kernel_state =
  glob :: global_state
  blocks :: "find_tracks_shared_payload list"
  threads :: "thread_state list"

definition block_threads :: "nat \<Rightarrow> nat \<Rightarrow> thread_state list \<Rightarrow> thread_state list" where
  "block_threads B b ths = take B (drop (b * B) ths)"

definition open_barrier :: "nat \<Rightarrow> nat \<Rightarrow> thread_state list \<Rightarrow> thread_state list" where
  "open_barrier B b ths =
     (let any = list_ex (\<lambda>t. pc t = Block_or True) (block_threads B b ths)
      in take (b * B) ths
         @ map (\<lambda>t. t\<lparr>pc := after_barrier any (pc t)\<rparr>) (block_threads B b ths)
         @ drop (b * B + B) ths)"

text \<open>
  The thread with position \<open>i\<close> in the grid takes a step.  Thread \<open>i\<close> is thread
  \<open>i mod B\<close> of block \<open>i div B\<close>, for the block dimension \<open>B\<close>.  A thread that
  waits at a barrier which cannot open yet, or that has returned, stays as it is.
\<close>

definition kernel_step ::
  "gain_matrix_updater \<Rightarrow> finding_config \<Rightarrow> find_tracks_payload \<Rightarrow> u32 \<Rightarrow> nat \<Rightarrow> kernel_state \<Rightarrow>
     fault + kernel_state" where
  "kernel_step upd cfg pl bdim i s =
     (let B = unat bdim in
      if B = 0 \<or> i \<ge> length (threads s) \<or> i div B \<ge> length (blocks s) then Inr s
      else
        (let b = i div B; th = threads s ! i in
         if is_barrier (pc th) then
           (if list_all (\<lambda>t. same_barrier (pc th) (pc t)) (block_threads B b (threads s))
            then Inr (s\<lparr>threads := open_barrier B b (threads s)\<rparr>)
            else Inr s)
         else
           (case thread_step upd cfg pl
                   \<lparr>getLocalThreadIdX = of_nat (i mod B), getBlockIdX = of_nat b, getBlockDimX = bdim\<rparr>
                   (glob s, blocks s ! b, th) of
              Inl e \<Rightarrow> Inl e
            | Inr (g', sh', th') \<Rightarrow>
                Inr \<lparr>glob = g', blocks = (blocks s)[b := sh'], threads = (threads s)[i := th']\<rparr>)))"

text \<open>
  A run of the kernel under a schedule: the list of the threads that take the
  steps, in their order.  Every interleaving of the threads' atomic steps is
  the run of some schedule.
\<close>

fun find_tracks ::
  "gain_matrix_updater \<Rightarrow> finding_config \<Rightarrow> find_tracks_payload \<Rightarrow> u32 \<Rightarrow> nat list \<Rightarrow> kernel_state \<Rightarrow>
     fault + kernel_state" where
  "find_tracks upd cfg pl bdim [] s = Inr s"
| "find_tracks upd cfg pl bdim (i # sched) s =
     (case kernel_step upd cfg pl bdim i s of
        Inl e \<Rightarrow> Inl e
      | Inr s' \<Rightarrow> find_tracks upd cfg pl bdim sched s')"

text \<open>At the launch every thread is at the first line; its local variables hold nothing yet.\<close>

definition launch_thread :: thread_state where
  "launch_thread = \<lparr>pc = Init_shared, init_meas = 0, num_meas = 0, curr_meas = 0\<rparr>"

definition launch :: "global_state \<Rightarrow> find_tracks_shared_payload list \<Rightarrow> nat \<Rightarrow> kernel_state" where
  "launch g shs n = \<lparr>glob = g, blocks = shs, threads = replicate n launch_thread\<rparr>"

definition returned :: "kernel_state \<Rightarrow> bool" where
  "returned s \<longleftrightarrow> list_all (\<lambda>t. pc t = Return) (threads s)"

section \<open>The kernel \<^verbatim>\<open>build_tracks\<close>\<close>

record track_quality =
  ndf :: scalar
  trk_chi2 :: scalar
  pval :: scalar
  n_holes :: u32

record track_candidate =
  seed_params :: bound_track_parameters
  trk_quality :: track_quality
  cands_per_track :: "measurement list"

record build_tracks_payload =
  bt_measurements_view :: "measurement list"
  seeds_view :: "bound_track_parameters list"
  links_view :: "candidate_link list"
  tips_view :: "u32 list"
  cands_capacity :: u32

text \<open>
  Lines 59 to 62: links without a measurement are passed over, down to step 0.
  The loop follows the links' parent indices and ends only when it meets a
  measurement or step 0: it is a partial function, with \<open>None\<close> for a walk that
  never ends.
\<close>

partial_function (option) skip_holes ::
  "candidate_link list \<Rightarrow> u32 \<Rightarrow> candidate_link \<Rightarrow> (fault + candidate_link) option" where
  "skip_holes ls n_meas L =
     (if meas_idx L \<ge> n_meas \<and> step L \<noteq> 0 then
        (case at_vec ls (previous_candidate_idx L) of
           Inl e \<Rightarrow> Some (Inl e)
         | Inr L' \<Rightarrow> skip_holes ls n_meas L')
      else Some (Inr L))"

text \<open>
  The sums of \<^verbatim>\<open>build_tracks\<close> are computed in \<^verbatim>\<open>traccc::scalar\<close>, a floating-point
  type: every \<^verbatim>\<open>+=\<close> and every \<^verbatim>\<open>-\<close> rounds its result, and the result of a sum
  depends on the order of its terms.  The values of the type are taken as the
  real numbers they denote; its operations are not those of the real numbers
  and are parameters of the kernel: the addition, the subtraction and the
  conversion \<^verbatim>\<open>static_cast<scalar>\<close> of an \<^verbatim>\<open>unsigned int\<close>.
\<close>

record scalar_arith =
  sc_add :: "scalar \<Rightarrow> scalar \<Rightarrow> scalar"
  sc_sub :: "scalar \<Rightarrow> scalar \<Rightarrow> scalar"
  sc_of_uint :: "u32 \<Rightarrow> scalar"

text \<open>
  Lines 56 to 87: the loop over the positions of the track's vector, from the
  last to the first.  \<open>k\<close> positions are still to be filled, \<open>acc\<close> holds the
  positions filled so far (the end of the vector), \<open>ar\<close> is the arithmetic of
  the scalars, \<open>prob\<close> is the external function that turns a chi-square and a
  number of degrees of freedom into a p-value.  At the first position the seed
  and the track quality are written.
\<close>

fun fill_candidates ::
  "scalar_arith \<Rightarrow> (scalar \<Rightarrow> scalar \<Rightarrow> scalar) \<Rightarrow> build_tracks_payload \<Rightarrow> nat \<Rightarrow> candidate_link \<Rightarrow>
     scalar \<Rightarrow> scalar \<Rightarrow> measurement list \<Rightarrow> track_candidate \<Rightarrow> (fault + track_candidate) option" where
  "fill_candidates ar prob pl 0 L ndf_sum chi2_sum acc tc = Some (Inr (tc\<lparr>cands_per_track := acc\<rparr>))"
| "fill_candidates ar prob pl (Suc k) L ndf_sum chi2_sum acc tc =
     (case skip_holes (links_view pl) (of_nat (length (bt_measurements_view pl))) L of
        None \<Rightarrow> None
      | Some (Inl e) \<Rightarrow> Some (Inl e)
      | Some (Inr L1) \<Rightarrow>
          (case at_vec (bt_measurements_view pl) (meas_idx L1) of
             Inl e \<Rightarrow> Some (Inl Assertion_failed)
           | Inr m \<Rightarrow>
               if \<not> (chi2 L1 < scalar_max \<and> chi2 L1 \<ge> 0) then Some (Inl Assertion_failed)
               else
                 (let ndf_sum1 = sc_add ar ndf_sum (sc_of_uint ar (meas_dim m));
                      chi2_sum1 = sc_add ar chi2_sum (chi2 L1)
                  in if k = 0 then
                       (case at_vec (seeds_view pl) (seed_idx L1) of
                          Inl e \<Rightarrow> Some (Inl e)
                        | Inr sd \<Rightarrow>
                            Some (Inr (tc\<lparr>seed_params := sd,
                                         trk_quality :=
                                           \<lparr>ndf = sc_sub ar ndf_sum1 5, trk_chi2 = chi2_sum1,
                                            pval = prob chi2_sum1 (sc_sub ar ndf_sum1 5),
                                            n_holes = n_skipped L1\<rparr>,
                                         cands_per_track := m # acc\<rparr>)))
                     else
                       (case at_vec (links_view pl) (previous_candidate_idx L1) of
                          Inl e \<Rightarrow> Some (Inl e)
                        | Inr L2 \<Rightarrow>
                            fill_candidates ar prob pl k L2 ndf_sum1 chi2_sum1 (m # acc) tc))))"

text \<open>
  The kernel for the thread \<open>globalIndex\<close>, which assembles the track of one tip
  in place of the track candidate \<open>tc\<close> of the output container.
\<close>

definition build_tracks ::
  "scalar_arith \<Rightarrow> (scalar \<Rightarrow> scalar \<Rightarrow> scalar) \<Rightarrow> u32 \<Rightarrow> build_tracks_payload \<Rightarrow> track_candidate \<Rightarrow>
     (fault + track_candidate) option" where
  "build_tracks ar prob globalIndex pl tc =
     (if unat globalIndex \<ge> length (tips_view pl) then Some (Inr tc)
      else
        (case at_vec (links_view pl) (tips_view pl ! unat globalIndex) of
           Inl e \<Rightarrow> Some (Inl e)
         | Inr L \<Rightarrow>
             (let n_cands = step L + 1 - n_skipped L in
              if n_cands > cands_capacity pl then Some (Inl Capacity_exceeded)
              else fill_candidates ar prob pl (unat n_cands) L 0 0 [] tc)))"

section \<open>Concrete inputs\<close>

text \<open>
  A parameter set on surface 3 while both measurements lie on surface 5: the
  sorted barcodes are \<open>[5]\<close> and the upper bounds \<open>[2]\<close>.
\<close>

definition absent_surface_payload :: find_tracks_payload where
  "absent_surface_payload =
     \<lparr>measurements_view =
        [\<lparr>meas_surface_link = 5, meas_dim = 2, measurement_id = 0\<rparr>,
         \<lparr>meas_surface_link = 5, meas_dim = 2, measurement_id = 1\<rparr>],
      in_params_view = [\<lparr>surface_link = 3, bound_vector = []\<rparr>],
      in_params_liveness_view = [1], n_in_params = 1,
      barcodes_view = [5], upper_bounds_view = [2],
      payload_step = 0, prev_links_idx = 0, curr_links_idx = 0,
      links_capacity = 8, tips_capacity = 8\<rparr>"

text \<open>
  One seed at step 0 with two measurements on its surface, at most one branch
  per seed, and a block of two threads.  The Kalman update \<open>accept_all\<close> succeeds
  with chi-square 1 on every input.  Under \<open>race_schedule\<close> both threads load
  the seed's counter before either of them increments it.
\<close>

definition race_cfg :: finding_config where
  "race_cfg = \<lparr>max_num_branches_per_seed = 1, max_track_candidates_per_track = 3,
      min_track_candidates_per_track = 1, max_num_skipping_per_cand = 1, chi2_max = 30\<rparr>"

definition race_payload :: find_tracks_payload where
  "race_payload =
     \<lparr>measurements_view =
        [\<lparr>meas_surface_link = 7, meas_dim = 2, measurement_id = 0\<rparr>,
         \<lparr>meas_surface_link = 7, meas_dim = 2, measurement_id = 1\<rparr>],
      in_params_view = [\<lparr>surface_link = 7, bound_vector = []\<rparr>],
      in_params_liveness_view = [1], n_in_params = 1,
      barcodes_view = [7], upper_bounds_view = [2],
      payload_step = 0, prev_links_idx = 0, curr_links_idx = 0,
      links_capacity = 8, tips_capacity = 8\<rparr>"

definition race_glob :: global_state where
  "race_glob = \<lparr>links = [], out_params = replicate 2 \<lparr>surface_link = 0, bound_vector = []\<rparr>,
      out_params_liveness = [0, 0], tips = [], n_tracks_per_seed = [0]\<rparr>"

definition race_shared :: find_tracks_shared_payload where
  "race_shared = \<lparr>shared_num_candidates = [0, 0], shared_candidates = replicate 4 (0, 0),
      shared_candidates_size = 0\<rparr>"

definition accept_all :: gain_matrix_updater where
  "accept_all par m = (SUCCESS, \<lparr>filtered_chi2 = 1, filtered = par\<rparr>)"

definition race_schedule :: "nat list" where
  "race_schedule = [0, 1, 0, 0, 1, 0, 1, 0,
                    0, 0, 0, 0, 0, 0, 0, 1, 0,
                    0, 1, 0, 1, 0, 1, 0, 0,
                    0, 1, 0, 1, 0, 0, 1]"

text \<open>
  Step 1 of a search with at most three branches per seed.  Step 0 left two
  links of seed 0, and the seed's counter at 2.  The two parameter sets of step
  1 descend from these links; each has one measurement on its surface.  Under
  \<open>exhausted_schedule\<close> thread 0 processes the pair of parameter set 0 with all its
  steps before thread 1 loads the counter for the pair of parameter set 1.
\<close>

definition exhausted_cfg :: finding_config where
  "exhausted_cfg = \<lparr>max_num_branches_per_seed = 3, max_track_candidates_per_track = 3,
      min_track_candidates_per_track = 1, max_num_skipping_per_cand = 1, chi2_max = 30\<rparr>"

definition exhausted_payload :: find_tracks_payload where
  "exhausted_payload =
     \<lparr>measurements_view =
        [\<lparr>meas_surface_link = 4, meas_dim = 2, measurement_id = 0\<rparr>,
         \<lparr>meas_surface_link = 4, meas_dim = 2, measurement_id = 1\<rparr>,
         \<lparr>meas_surface_link = 7, meas_dim = 2, measurement_id = 2\<rparr>,
         \<lparr>meas_surface_link = 9, meas_dim = 2, measurement_id = 3\<rparr>],
      in_params_view = [\<lparr>surface_link = 7, bound_vector = []\<rparr>, \<lparr>surface_link = 9, bound_vector = []\<rparr>],
      in_params_liveness_view = [1, 1], n_in_params = 2,
      barcodes_view = [4, 7, 9], upper_bounds_view = [2, 3, 4],
      payload_step = 1, prev_links_idx = 0, curr_links_idx = 2,
      links_capacity = 8, tips_capacity = 8\<rparr>"

definition exhausted_glob :: global_state where
  "exhausted_glob =
     \<lparr>links = [\<lparr>step = 0, previous_candidate_idx = 0, meas_idx = 0, seed_idx = 0, n_skipped = 0, chi2 = 1\<rparr>,
               \<lparr>step = 0, previous_candidate_idx = 0, meas_idx = 1, seed_idx = 0, n_skipped = 0, chi2 = 1\<rparr>],
      out_params = replicate 2 \<lparr>surface_link = 0, bound_vector = []\<rparr>,
      out_params_liveness = [0, 0], tips = [], n_tracks_per_seed = [2]\<rparr>"

definition exhausted_schedule :: "nat list" where
  "exhausted_schedule = [0, 1, 0, 0, 1, 0, 1, 0,
                         0, 0, 0, 0, 1, 1, 1, 1, 0,
                         0, 0, 0, 0, 1, 1, 0,
                         0, 1, 0, 1, 0, 0, 1]"

text \<open>
  The same step 1 without any measurement: both parameter sets go to the hole
  inserter.  Under \<open>hole_race_schedule\<close> thread 0 increments the seed's counter
  from 2 to 3, then thread 1 from 3 to 4, and then thread 0 appends its hole.
\<close>

definition hole_race_payload :: find_tracks_payload where
  "hole_race_payload =
     exhausted_payload\<lparr>measurements_view := [], barcodes_view := [], upper_bounds_view := []\<rparr>"

definition hole_race_schedule :: "nat list" where
  "hole_race_schedule = [0, 1, 0, 0, 1, 0, 1, 0,
                         0, 1, 0, 1, 0]"

text \<open>
  Two more Kalman updates for the two-measurement input: \<open>fail_all\<close> never
  succeeds, \<open>exceed_all\<close> succeeds with a chi-square that is \<open>chi2_max\<close> and so not
  below it.  Under \<open>round_robin\<close> the two threads take their steps in turn.
\<close>

definition fail_all :: gain_matrix_updater where
  "fail_all par m = (ERROR_CODE 1, \<lparr>filtered_chi2 = 1, filtered = par\<rparr>)"

definition exceed_all :: gain_matrix_updater where
  "exceed_all par m = (SUCCESS, \<lparr>filtered_chi2 = 30, filtered = par\<rparr>)"

definition round_robin :: "nat list" where
  "round_robin = concat (replicate 24 [0, 1])"

text \<open>The shared state of the two-measurement input once both pairs are in the buffer.\<close>

definition race_enqueued :: find_tracks_shared_payload where
  "race_enqueued = race_shared\<lparr>shared_candidates := [(0, 0), (1, 0), (0, 0), (0, 0)],
      shared_candidates_size := 2\<rparr>"

definition thread0_of_2 :: thread_id where
  "thread0_of_2 = \<lparr>getLocalThreadIdX = 0, getBlockIdX = 0, getBlockDimX = 2\<rparr>"

definition thread1_of_2 :: thread_id where
  "thread1_of_2 = \<lparr>getLocalThreadIdX = 1, getBlockIdX = 0, getBlockDimX = 2\<rparr>"

text \<open>The only thread of a grid of one block of one thread.\<close>

definition single_thread :: thread_id where
  "single_thread = \<lparr>getLocalThreadIdX = 0, getBlockIdX = 0, getBlockDimX = 1\<rparr>"

text \<open>
  A single seed at step 0 without any measurement, with one step at most, one
  hole at most and no minimal length.
\<close>

definition single_seed_cfg :: finding_config where
  "single_seed_cfg = \<lparr>max_num_branches_per_seed = 10, max_track_candidates_per_track = 1,
      min_track_candidates_per_track = 0, max_num_skipping_per_cand = 1, chi2_max = 30\<rparr>"

definition single_seed_payload :: find_tracks_payload where
  "single_seed_payload =
     \<lparr>measurements_view = [],
      in_params_view = [\<lparr>surface_link = 3, bound_vector = []\<rparr>],
      in_params_liveness_view = [1], n_in_params = 1,
      barcodes_view = [], upper_bounds_view = [],
      payload_step = 0, prev_links_idx = 0, curr_links_idx = 0,
      links_capacity = 8, tips_capacity = 8\<rparr>"

definition single_seed_glob :: global_state where
  "single_seed_glob = \<lparr>links = [], out_params = [\<lparr>surface_link = 0, bound_vector = []\<rparr>],
      out_params_liveness = [0], tips = [], n_tracks_per_seed = [0]\<rparr>"

definition single_seed_shared :: find_tracks_shared_payload where
  "single_seed_shared = \<lparr>shared_num_candidates = [0], shared_candidates = [(0, 0), (0, 0)],
      shared_candidates_size = 0\<rparr>"

section \<open>Branch accounting\<close>

text \<open>
  A thread that has incremented a seed's counter below the maximum and has not
  yet appended its link (or recorded its tip) holds a reserved branch of that
  seed.  \<open>n_reserved\<close> counts the threads that hold one, \<open>n_links\<close> the links of
  a seed, \<open>n_measurement_links\<close> those of them that are not holes.
\<close>

fun commits :: "pc \<Rightarrow> bool" where
  "commits (Append_link prev seed meas_i trk) = True"
| "commits (Hole_commit prev seed) = True"
| "commits p = False"

fun reserved :: "u32 \<Rightarrow> pc \<Rightarrow> bool" where
  "reserved s (Append_link prev seed meas_i trk) = (seed = s)"
| "reserved s (Hole_commit prev seed) = (seed = s)"
| "reserved s p = False"

definition n_reserved :: "u32 \<Rightarrow> thread_state list \<Rightarrow> nat" where
  "n_reserved s ths = length (filter (\<lambda>t. reserved s (pc t)) ths)"

definition n_links :: "u32 \<Rightarrow> candidate_link list \<Rightarrow> nat" where
  "n_links s ls = length (filter (\<lambda>l. seed_idx l = s) ls)"

definition n_measurement_links :: "u32 \<Rightarrow> candidate_link list \<Rightarrow> nat" where
  "n_measurement_links s ls = length (filter (\<lambda>l. seed_idx l = s \<and> meas_idx l \<noteq> hole_meas_idx) ls)"

text \<open>The steps that write the branch counters, the links or the tips.\<close>

fun touches_glob :: "pc \<Rightarrow> bool" where
  "touches_glob (Reserve_branch prev seed meas_i trk) = True"
| "touches_glob (Hole_reserve prev seed) = True"
| "touches_glob (Append_link prev seed meas_i trk) = True"
| "touches_glob (Hole_commit prev seed) = True"
| "touches_glob p = False"



section \<open>Well-formed link tables\<close>

text \<open>
  What \<^verbatim>\<open>build_tracks\<close> may rely on, for the links that \<^verbatim>\<open>find_tracks\<close> has written
  over the steps of a search.  A link is a hole for \<^verbatim>\<open>build_tracks\<close> when its
  measurement index is not an index of the measurement container.  A link of
  step 0 has skipped one step if it is a hole and none otherwise.  A link of a
  later step has its parent before it in the table, one step earlier, and has
  skipped what its parent has skipped, and one more if it is a hole.  The
  chi-square of a measurement link is not negative and below the largest
  \<^verbatim>\<open>float\<close>, and its seed is one of the seeds.  The sizes of the containers and the
  steps are \<^verbatim>\<open>unsigned int\<close> values.
\<close>

definition is_hole :: "build_tracks_payload \<Rightarrow> candidate_link \<Rightarrow> bool" where
  "is_hole pl L \<longleftrightarrow> meas_idx L \<ge> of_nat (length (bt_measurements_view pl))"

definition wf_link :: "build_tracks_payload \<Rightarrow> nat \<Rightarrow> bool" where
  "wf_link pl j =
     (let ls = links_view pl; L = ls ! j; p = unat (previous_candidate_idx L) in
      unat (step L) + 1 < 2 ^ 32
      \<and> (if step L = 0 then unat (n_skipped L) = (if is_hole pl L then 1 else 0)
         else p < j \<and> unat (step (ls ! p)) + 1 = unat (step L)
              \<and> unat (n_skipped L) = unat (n_skipped (ls ! p)) + (if is_hole pl L then 1 else 0))
      \<and> (is_hole pl L \<or> (0 \<le> chi2 L \<and> chi2 L < scalar_max \<and> unat (seed_idx L) < length (seeds_view pl))))"

definition wf_links :: "build_tracks_payload \<Rightarrow> bool" where
  "wf_links pl \<longleftrightarrow>
     length (bt_measurements_view pl) < 2 ^ 32
     \<and> list_all (wf_link pl) [0..<length (links_view pl)]"

text \<open>
  The indices of the links from the root of a branch to the link \<open>j\<close>, found
  by following the parent indices for as many steps as the link's step says,
  and those of them that carry a measurement.
\<close>

fun chain :: "candidate_link list \<Rightarrow> nat \<Rightarrow> nat \<Rightarrow> nat list" where
  "chain ls 0 j = [j]"
| "chain ls (Suc k) j = chain ls k (unat (previous_candidate_idx (ls ! j))) @ [j]"

definition ancestry :: "candidate_link list \<Rightarrow> nat \<Rightarrow> nat list" where
  "ancestry ls j = chain ls (unat (step (ls ! j))) j"

definition measured :: "build_tracks_payload \<Rightarrow> nat \<Rightarrow> nat list" where
  "measured pl j = filter (\<lambda>i. \<not> is_hole pl (links_view pl ! i)) (ancestry (links_view pl) j)"

text \<open>
  The track candidate that the loop of \<^verbatim>\<open>build_tracks\<close> leaves when it starts at
  the link \<open>j\<close> of a well-formed table with the sums \<open>ndf_sum\<close> and \<open>chi2_sum\<close>
  and the positions \<open>acc\<close> already filled.  The loop walks from the link \<open>j\<close> to
  the root, so that the terms are added in the order of the walk, the youngest
  measurement first.
\<close>

definition assembled :: "scalar_arith \<Rightarrow> (scalar \<Rightarrow> scalar \<Rightarrow> scalar) \<Rightarrow> build_tracks_payload \<Rightarrow> nat \<Rightarrow>
    scalar \<Rightarrow> scalar \<Rightarrow> measurement list \<Rightarrow> track_candidate \<Rightarrow> track_candidate" where
  "assembled ar prob pl j ndf_sum chi2_sum acc tc =
     (let ls = links_view pl; ms = bt_measurements_view pl; is = measured pl j;
          ndf_tot = sc_sub ar
            (foldl (sc_add ar) ndf_sum
               (map (\<lambda>i. sc_of_uint ar (meas_dim (ms ! unat (meas_idx (ls ! i))))) (rev is))) 5;
          chi2_tot = foldl (sc_add ar) chi2_sum (map (\<lambda>i. chi2 (ls ! i)) (rev is))
      in if is = [] then tc\<lparr>cands_per_track := acc\<rparr>
         else tc\<lparr>seed_params := seeds_view pl ! unat (seed_idx (ls ! hd is)),
                 trk_quality := \<lparr>ndf = ndf_tot, trk_chi2 = chi2_tot, pval = prob chi2_tot ndf_tot,
                                 n_holes = n_skipped (ls ! hd is)\<rparr>,
                 cands_per_track := map (\<lambda>i. ms ! unat (meas_idx (ls ! i))) is @ acc\<rparr>)"

text \<open>
  A branch with a hole between two measurements, and a branch that is a single
  hole, with the payloads of \<^verbatim>\<open>build_tracks\<close> for them.
\<close>

definition branch_payload :: build_tracks_payload where
  "branch_payload =
     \<lparr>bt_measurements_view =
        [\<lparr>meas_surface_link = 4, meas_dim = 2, measurement_id = 0\<rparr>,
         \<lparr>meas_surface_link = 9, meas_dim = 1, measurement_id = 1\<rparr>],
      seeds_view = [\<lparr>surface_link = 4, bound_vector = []\<rparr>],
      links_view =
        [\<lparr>step = 0, previous_candidate_idx = 0, meas_idx = 0, seed_idx = 0, n_skipped = 0, chi2 = 1\<rparr>,
         \<lparr>step = 1, previous_candidate_idx = 0, meas_idx = hole_meas_idx, seed_idx = 0, n_skipped = 1,
          chi2 = scalar_max\<rparr>,
         \<lparr>step = 2, previous_candidate_idx = 1, meas_idx = 1, seed_idx = 0, n_skipped = 1, chi2 = 2\<rparr>],
      tips_view = [2],
      cands_capacity = 4\<rparr>"




text \<open>
  On small whole numbers the operations of a single-precision float are exact:
  the arithmetic for the examples.
\<close>

definition whole_arith :: scalar_arith where
  "whole_arith = \<lparr>sc_add = (\<lambda>a b. a + b), sc_sub = (\<lambda>a b. a - b), sc_of_uint = (\<lambda>n. real (unat n))\<rparr>"

definition blank_candidate :: track_candidate where
  "blank_candidate =
     \<lparr>seed_params = \<lparr>surface_link = 0, bound_vector = []\<rparr>,
      trk_quality = \<lparr>ndf = 0, trk_chi2 = 0, pval = 0, n_holes = 0\<rparr>,
      cands_per_track = []\<rparr>"

section \<open>The link table along a search\<close>

text \<open>
  After the last step the links and the tips of the search are handed to
  \<^verbatim>\<open>build_tracks\<close>, with the measurements of the event and the seeds.
\<close>

definition assembly_payload ::
  "find_tracks_payload \<Rightarrow> bound_track_parameters list \<Rightarrow> u32 \<Rightarrow> global_state \<Rightarrow> build_tracks_payload" where
  "assembly_payload pl sds cap g =
     \<lparr>bt_measurements_view = measurements_view pl, seeds_view = sds, links_view = links g,
      tips_view = tips g, cands_capacity = cap\<rparr>"

text \<open>
  What a step of the search expects of its payload, for the link table \<open>ls0\<close>
  at the launch: after step 0 the parameter set \<open>i\<close>, if it is alive, descends
  from the link \<open>prev_links_idx + i\<close>, a link of the step before.  The step
  number and the size of the measurement container are \<^verbatim>\<open>unsigned int\<close> values below
  the largest one, and \<open>chi2_max\<close> is a finite \<^verbatim>\<open>float\<close>.
\<close>

definition payload_contract :: "finding_config \<Rightarrow> find_tracks_payload \<Rightarrow> candidate_link list \<Rightarrow> bool" where
  "payload_contract cfg pl ls0 \<longleftrightarrow>
     unat (payload_step pl) + 1 < 2 ^ 32
     \<and> chi2_max cfg \<le> scalar_max
     \<and> length (measurements_view pl) < 2 ^ 32
     \<and> (payload_step pl = 0 \<or>
         list_all (\<lambda>i. in_params_liveness_view pl ! i = 0 \<or>
                     (unat (prev_links_idx pl + of_nat i) < length ls0
                      \<and> unat (step (ls0 ! unat (prev_links_idx pl + of_nat i))) + 1 = unat (payload_step pl)))
           [0..<length (in_params_liveness_view pl)])"

text \<open>
  The parent index and the seed that a thread carries towards a new link or a
  tip, and with them the measurement index and the track state of a candidate.
\<close>

definition parent_ok :: "find_tracks_payload \<Rightarrow> candidate_link list \<Rightarrow> nat \<Rightarrow> u32 \<Rightarrow> u32 \<Rightarrow> bool" where
  "parent_ok pl ls0 n_seeds prev seed \<longleftrightarrow>
     unat seed < n_seeds
     \<and> (payload_step pl = 0 \<or>
         (unat prev < length ls0 \<and> unat (step (ls0 ! unat prev)) + 1 = unat (payload_step pl)))"

fun regs_ok :: "finding_config \<Rightarrow> find_tracks_payload \<Rightarrow> candidate_link list \<Rightarrow> nat \<Rightarrow> pc \<Rightarrow> bool" where
  "regs_ok cfg pl ls0 n (Count_candidate owner prev seed meas_i trk) =
     (parent_ok pl ls0 n prev seed \<and> unat meas_i < length (measurements_view pl)
      \<and> filtered_chi2 trk < chi2_max cfg)"
| "regs_ok cfg pl ls0 n (Reserve_branch prev seed meas_i trk) =
     (parent_ok pl ls0 n prev seed \<and> unat meas_i < length (measurements_view pl)
      \<and> filtered_chi2 trk < chi2_max cfg)"
| "regs_ok cfg pl ls0 n (Append_link prev seed meas_i trk) =
     (parent_ok pl ls0 n prev seed \<and> unat meas_i < length (measurements_view pl)
      \<and> filtered_chi2 trk < chi2_max cfg)"
| "regs_ok cfg pl ls0 n (Hole_reserve prev seed) = parent_ok pl ls0 n prev seed"
| "regs_ok cfg pl ls0 n (Hole_commit prev seed) = parent_ok pl ls0 n prev seed"
| "regs_ok cfg pl ls0 n p = True"

text \<open>
  The invariant of the global state along a step: the links of the launch are
  still there, the table is well formed, every tip is an index of the table,
  and there is one branch counter for each seed.
\<close>

definition glob_inv ::
  "find_tracks_payload \<Rightarrow> candidate_link list \<Rightarrow> bound_track_parameters list \<Rightarrow> global_state \<Rightarrow> bool" where
  "glob_inv pl ls0 sds g \<longleftrightarrow>
     take (length ls0) (links g) = ls0 \<and> length ls0 \<le> length (links g)
     \<and> wf_links (assembly_payload pl sds 0 g)
     \<and> list_all (\<lambda>t. unat t < length (links g)) (tips g)
     \<and> length (n_tracks_per_seed g) = length sds"

section \<open>The measurement index\<close>

text \<open>
  What step 1 is given: the measurements sorted by the barcode of their surface,
  the sorted barcodes of the surfaces that have measurements, each once, and
  for each of them the number of measurements up to and including its surface.
\<close>

definition measurement_index_ok :: "find_tracks_payload \<Rightarrow> bool" where
  "measurement_index_ok pl \<longleftrightarrow>
     sorted (barcodes_view pl) \<and> distinct (barcodes_view pl)
     \<and> length (upper_bounds_view pl) = length (barcodes_view pl)
     \<and> length (barcodes_view pl) < 2 ^ 32
     \<and> sorted (map meas_surface_link (measurements_view pl))
     \<and> set (map meas_surface_link (measurements_view pl)) \<subseteq> set (barcodes_view pl)
     \<and> list_all (\<lambda>k. unat (upper_bounds_view pl ! k)
                       = length (filter (\<lambda>m. meas_surface_link m \<le> barcodes_view pl ! k)
                           (measurements_view pl)))
         [0..<length (barcodes_view pl)]"

section \<open>The effect of the atomic steps\<close>

lemma count_candidate_Inr:
  "count_candidate owner prev seed meas_i trk (g, sh, th) = Inr (g', sh', th') \<Longrightarrow>
     g' = g \<and> th' = th\<lparr>pc := Reserve_branch prev seed meas_i trk\<rparr>
     \<and> sh' = sh\<lparr>shared_num_candidates :=
                  (shared_num_candidates sh)[unat owner := shared_num_candidates sh ! unat owner + 1]\<rparr>"
  by (auto simp: count_candidate_def fetch_add_vec_def split: if_splits)

lemma saturated_Inr:
  "saturated owner (g, sh, th) = Inr (g', sh', th') \<Longrightarrow>
     g' = g \<and> th' = th\<lparr>pc := Barrier_processed\<rparr>
     \<and> sh' = sh\<lparr>shared_num_candidates :=
                  (shared_num_candidates sh)[unat owner := shared_num_candidates sh ! unat owner + 1]\<rparr>"
  by (auto simp: saturated_def fetch_add_vec_def split: if_splits)

lemma reserve_branch_Inr:
  "reserve_branch cfg prev seed meas_i trk (g, sh, th) = Inr (g', sh', th') \<Longrightarrow>
     unat seed < length (n_tracks_per_seed g) \<and> sh' = sh
     \<and> g' = g\<lparr>n_tracks_per_seed := (n_tracks_per_seed g)[unat seed := n_tracks_per_seed g ! unat seed + 1]\<rparr>
     \<and> th' = th\<lparr>pc := (if n_tracks_per_seed g ! unat seed < max_num_branches_per_seed cfg
                          then Append_link prev seed meas_i trk else Barrier_processed)\<rparr>"
  by (auto simp: reserve_branch_def fetch_add_vec_def split: if_splits)

lemma hole_reserve_Inr:
  "hole_reserve cfg prev seed (g, sh, th) = Inr (g', sh', th') \<Longrightarrow>
     unat seed < length (n_tracks_per_seed g) \<and> sh' = sh
     \<and> g' = g\<lparr>n_tracks_per_seed := (n_tracks_per_seed g)[unat seed := n_tracks_per_seed g ! unat seed + 1]\<rparr>
     \<and> th' = th\<lparr>pc := (if n_tracks_per_seed g ! unat seed < max_num_branches_per_seed cfg
                          then Hole_commit prev seed else Return)\<rparr>"
  by (auto simp: hole_reserve_def fetch_add_vec_def split: if_splits)

lemma emplace_link_Inr:
  "emplace_link pl g l par live = Inr (l_pos, g') \<Longrightarrow>
     links g' = links g @ [l] \<and> tips g' = tips g \<and> n_tracks_per_seed g' = n_tracks_per_seed g
     \<and> length (links g) < unat (links_capacity pl) \<and> l_pos = of_nat (length (links g))"
  by (auto simp: emplace_link_def push_back_vec_def set_vec_def Let_def split: if_splits sum.splits)

lemma append_link_Inr:
  "append_link cfg pl prev seed meas_i trk (g, sh, th) = Inr (g', sh', th') \<Longrightarrow>
     (\<exists>skipped. parent_n_skipped pl g prev = Inr skipped \<and>
        links g' = links g @ [\<lparr>step = payload_step pl, previous_candidate_idx = prev,
                             meas_idx = meas_i, seed_idx = seed, n_skipped = skipped,
                             chi2 = filtered_chi2 trk\<rparr>])
     \<and> n_tracks_per_seed g' = n_tracks_per_seed g \<and> sh' = sh \<and> th' = th\<lparr>pc := Barrier_processed\<rparr>"
  by (auto simp: append_link_def Let_def push_back_vec_def split: if_splits sum.splits
      dest!: emplace_link_Inr)

lemma hole_commit_Inr:
  "hole_commit cfg pl tid prev seed (g, sh, th) = Inr (g', sh', th') \<Longrightarrow>
     (\<exists>skipped. parent_n_skipped pl g prev = Inr skipped \<and>
        (if skipped \<ge> max_num_skipping_per_cand cfg \<or> last_step cfg pl
         then links g' = links g \<and>
              (if payload_step pl - skipped \<ge> min_track_candidates_per_track cfg
               then payload_step pl > 0 \<and> tips g' = tips g @ [prev] else tips g' = tips g)
         else links g' = links g @ [\<lparr>step = payload_step pl, previous_candidate_idx = prev,
                                   meas_idx = hole_meas_idx, seed_idx = seed,
                                   n_skipped = skipped + 1, chi2 = scalar_max\<rparr>]
              \<and> tips g' = tips g))
     \<and> n_tracks_per_seed g' = n_tracks_per_seed g \<and> sh' = sh \<and> th' = th\<lparr>pc := Return\<rparr>"
  by (auto simp: hole_commit_def Let_def push_back_vec_def split: if_splits sum.splits
      dest!: emplace_link_Inr)

lemma hole_check_counted:
  assumes "at_vec (shared_num_candidates sh) (getLocalThreadIdX tid) = Inr n" and "n \<noteq> 0"
    and "hole_check pl tid (g, sh, th) = Inr v"
  shows "v = (g, sh, th\<lparr>pc := Return\<rparr>)"
  using assms by (auto simp: hole_check_def Let_def split: if_splits sum.splits)

section \<open>Steps of the kernel\<close>

lemma kernel_step_cases:
  assumes "kernel_step upd cfg pl bdim i s = Inr s'"
  obtains (idle) "s' = s"
  | (barrier) "s' = s\<lparr>threads := open_barrier (unat bdim) (i div unat bdim) (threads s)\<rparr>"
  | (thread) g' sh' th' where "i < length (threads s)" and "i div unat bdim < length (blocks s)"
      and "\<not> is_barrier (pc (threads s ! i))"
      and "thread_step upd cfg pl
             \<lparr>getLocalThreadIdX = of_nat (i mod unat bdim), getBlockIdX = of_nat (i div unat bdim),
              getBlockDimX = bdim\<rparr>
             (glob s, blocks s ! (i div unat bdim), threads s ! i) = Inr (g', sh', th')"
      and "s' = \<lparr>glob = g', blocks = (blocks s)[i div unat bdim := sh'], threads = (threads s)[i := th']\<rparr>"
proof (cases "unat bdim = 0 \<or> i \<ge> length (threads s) \<or> i div unat bdim \<ge> length (blocks s)")
  case True
  then have "s' = s" using assms by (simp add: kernel_step_def Let_def)
  then show ?thesis by (rule idle)
next
  case run: False
  show ?thesis
  proof (cases "is_barrier (pc (threads s ! i))")
    case True
    then have "s' = s \<or> s' = s\<lparr>threads := open_barrier (unat bdim) (i div unat bdim) (threads s)\<rparr>"
      using assms run by (simp add: kernel_step_def Let_def split: if_splits)
    then show ?thesis using idle barrier by blast
  next
    case False
    let ?r = "thread_step upd cfg pl
             \<lparr>getLocalThreadIdX = of_nat (i mod unat bdim), getBlockIdX = of_nat (i div unat bdim),
              getBlockDimX = bdim\<rparr>
             (glob s, blocks s ! (i div unat bdim), threads s ! i)"
    from assms run False have k: "(case ?r of Inl e \<Rightarrow> Inl e
            | Inr (g', sh', th') \<Rightarrow>
                Inr \<lparr>glob = g', blocks = (blocks s)[i div unat bdim := sh'], threads = (threads s)[i := th']\<rparr>) = Inr s'"
      by (simp add: kernel_step_def Let_def)
    then obtain g' sh' th' where r: "?r = Inr (g', sh', th')"
      by (cases ?r) auto
    with k have "s' = \<lparr>glob = g', blocks = (blocks s)[i div unat bdim := sh'], threads = (threads s)[i := th']\<rparr>"
      by simp
    with run False r show ?thesis by (intro thread[of g' sh' th']) auto
  qed
qed

lemma reserved_commits: "reserved s p \<Longrightarrow> commits p"
  by (cases p) auto

lemma reserved_after_barrier [simp]: "reserved s (after_barrier any p) = reserved s p"
  by (cases p) auto

lemma split_block: "ths = take (b * B) ths @ block_threads B b ths @ drop (b * B + B) ths"
proof -
  have "drop (b * B) ths = take B (drop (b * B) ths) @ drop B (drop (b * B) ths)"
    by (simp only: append_take_drop_id)
  then have "drop (b * B) ths = block_threads B b ths @ drop (b * B + B) ths"
    by (simp add: block_threads_def add.commute)
  moreover have "ths = take (b * B) ths @ drop (b * B) ths"
    by (simp only: append_take_drop_id)
  ultimately show ?thesis by simp
qed

lemma n_reserved_append [simp]: "n_reserved s (xs @ ys) = n_reserved s xs + n_reserved s ys"
  by (simp add: n_reserved_def)

lemma n_reserved_map_after [simp]:
  "n_reserved s (map (\<lambda>t. t\<lparr>pc := after_barrier any (pc t)\<rparr>) xs) = n_reserved s xs"
  by (simp add: n_reserved_def filter_map comp_def)

lemma n_reserved_open_barrier [simp]: "n_reserved s (open_barrier B b ths) = n_reserved s ths"
proof -
  have "n_reserved s ths = n_reserved s (take (b * B) ths @ block_threads B b ths @ drop (b * B + B) ths)"
    using split_block[of ths b B] by simp
  then show ?thesis
    by (simp add: open_barrier_def Let_def)
qed

lemma n_reserved_update:
  assumes "i < length ths"
  shows "n_reserved s (ths[i := t]) + (if reserved s (pc (ths ! i)) then 1 else 0)
       = n_reserved s ths + (if reserved s (pc t) then 1 else 0)"
proof -
  have a: "ths = take i ths @ (ths ! i) # drop (Suc i) ths"
    using assms by (simp add: id_take_nth_drop)
  have b: "ths[i := t] = take i ths @ t # drop (Suc i) ths"
    using assms by (simp add: upd_conv_take_nth_drop)
  have "n_reserved s ths = n_reserved s (take i ths) + (if reserved s (pc (ths ! i)) then 1 else 0)
          + n_reserved s (drop (Suc i) ths)"
    by (subst a) (simp add: n_reserved_def)
  moreover have "n_reserved s (ths[i := t]) = n_reserved s (take i ths) + (if reserved s (pc t) then 1 else 0)
          + n_reserved s (drop (Suc i) ths)"
    by (subst b) (simp add: n_reserved_def)
  ultimately show ?thesis by simp
qed

lemma init_shared_frame:
  "init_shared tid (g, sh, th) = Inr (g', sh', th') \<Longrightarrow>
     g' = g \<and> th' = th\<lparr>pc := Barrier_init\<rparr> \<and> shared_candidates sh' = shared_candidates sh"
  by (auto simp: init_shared_def Let_def split: sum.splits)

lemma find_range_frame:
  "find_range pl tid (g, sh, th) = Inr (g', sh', th') \<Longrightarrow> g' = g \<and> sh' = sh \<and> pc th' = Vote"
  by (auto simp: find_range_def split: sum.splits)

lemma vote_frame:
  "vote (g, sh, th) = Inr (g', sh', th') \<Longrightarrow> g' = g \<and> sh' = sh
     \<and> th' = th\<lparr>pc := Block_or (curr_meas th < num_meas th \<or> shared_candidates_size sh > 0)\<rparr>"
  by (auto simp: vote_def)

lemma enqueue_cond_frame:
  "enqueue_cond tid (g, sh, th) = Inr (g', sh', th') \<Longrightarrow> g' = g \<and> sh' = sh
     \<and> th' = th\<lparr>pc := (if curr_meas th < num_meas th \<and> shared_candidates_size sh < getBlockDimX tid
                         then Enqueue_seed else Barrier_enqueued)\<rparr>"
  by (auto simp: enqueue_cond_def)

lemma enqueue_seed_frame:
  "enqueue_seed cfg pl tid (g, sh, th) = Inr (g', sh', th') \<Longrightarrow> g' = g \<and> sh' = sh
     \<and> (th' = th\<lparr>pc := Barrier_enqueued, curr_meas := num_meas th\<rparr> \<or> th' = th\<lparr>pc := Enqueue_push\<rparr>)"
  by (auto simp: enqueue_seed_def split: sum.splits if_splits)

lemma enqueue_push_frame:
  "enqueue_push tid (g, sh, th) = Inr (g', sh', th') \<Longrightarrow> g' = g
     \<and> th' = th\<lparr>pc := Enqueue_cond, curr_meas := curr_meas th + 1\<rparr>"
  by (auto simp: enqueue_push_def Let_def split: sum.splits)

lemma process_load_frame:
  "process_load upd cfg pl tid (g, sh, th) = Inr (g', sh', th') \<Longrightarrow> g' = g \<and> sh' = sh
     \<and> (\<exists>p. th' = th\<lparr>pc := p\<rparr> \<and>
           (p = Barrier_processed \<or> (\<exists>owner. p = Saturated owner) \<or>
            (\<exists>owner prev seed meas_i trk. p = Count_candidate owner prev seed meas_i trk)))"
  by (auto simp: process_load_def Let_def split: sum.splits if_splits prod.splits)

lemma compact_frame:
  "compact tid (g, sh, th) = Inr (g', sh', th') \<Longrightarrow> g' = g \<and> th' = th\<lparr>pc := Vote\<rparr>"
  by (auto simp: compact_def Let_def split: sum.splits)

lemma hole_check_frame:
  "hole_check pl tid (g, sh, th) = Inr (g', sh', th') \<Longrightarrow> g' = g \<and> sh' = sh
     \<and> (th' = th\<lparr>pc := Return\<rparr> \<or> (\<exists>prev seed. th' = th\<lparr>pc := Hole_reserve prev seed\<rparr>))"
  by (auto simp: hole_check_def Let_def split: sum.splits if_splits)

lemma thread_step_quiet:
  assumes "thread_step upd cfg pl tid (g, sh, th) = Inr (g', sh', th')" and "\<not> touches_glob (pc th)"
  shows "g' = g \<and> \<not> commits (pc th')"
proof (cases "pc th")
  case Init_shared then show ?thesis using assms by (auto simp: thread_step_def dest!: init_shared_frame)
next
  case Find_range then show ?thesis using assms by (auto simp: thread_step_def dest!: find_range_frame)
next
  case Vote then show ?thesis using assms by (auto simp: thread_step_def dest!: vote_frame)
next
  case Enqueue_cond then show ?thesis using assms by (auto simp: thread_step_def split: if_splits dest!: enqueue_cond_frame)
next
  case Enqueue_seed then show ?thesis using assms by (auto simp: thread_step_def dest!: enqueue_seed_frame)
next
  case Enqueue_push then show ?thesis using assms by (auto simp: thread_step_def dest!: enqueue_push_frame)
next
  case Process_load then show ?thesis using assms by (auto simp: thread_step_def dest!: process_load_frame)
next
  case (Saturated x) then show ?thesis using assms by (auto simp: thread_step_def dest!: saturated_Inr)
next
  case (Count_candidate x1 x2 x3 x4 x5) then show ?thesis using assms by (auto simp: thread_step_def dest!: count_candidate_Inr)
next
  case Compact then show ?thesis using assms by (auto simp: thread_step_def dest!: compact_frame)
next
  case Hole_check then show ?thesis using assms by (auto simp: thread_step_def dest!: hole_check_frame)
qed (use assms in \<open>auto simp: thread_step_def\<close>)

lemma thread_step_counters:
  assumes "thread_step upd cfg pl tid (g, sh, th) = Inr (g', sh', th')"
  shows "length (n_tracks_per_seed g') = length (n_tracks_per_seed g)
     \<and> (\<forall>k < length (n_tracks_per_seed g).
           n_tracks_per_seed g' ! k = n_tracks_per_seed g ! k
           \<or> n_tracks_per_seed g' ! k = n_tracks_per_seed g ! k + 1)"
proof (cases "touches_glob (pc th)")
  case False
  then show ?thesis using thread_step_quiet[OF assms] by simp
next
  case True
  then show ?thesis using assms
    by (cases "pc th")
      (auto simp: thread_step_def nth_list_update
        dest!: reserve_branch_Inr hole_reserve_Inr append_link_Inr hole_commit_Inr)
qed

lemma n_links_append [simp]: "n_links s (ls @ [l]) = n_links s ls + (if seed_idx l = s then 1 else 0)"
  by (simp add: n_links_def)

lemma unat_seed_eq: "unat (a :: u32) = unat b \<longleftrightarrow> a = b"
  by (rule word_unat_eq_iff[symmetric])

lemma min_counter_step:
  assumes "(c :: u32) \<noteq> - 1"
  shows "min (unat c) (unat m) + (if c < m then 1 else 0) \<le> min (unat (c + 1)) (unat m)"
proof -
  have "unat (c + 1) = unat c + 1"
    using assms by (metis unatSuc add.commute add_eq_0_iff2 Suc_eq_plus1)
  moreover have "c < m \<Longrightarrow> unat c < unat m" by (simp add: word_less_nat_alt)
  ultimately show ?thesis by auto
qed

lemma thread_step_account:
  assumes step: "thread_step upd cfg pl tid (g, sh, th) = Inr (g', sh', th')"
    and s: "unat s < length (n_tracks_per_seed g)"
    and nowrap: "n_tracks_per_seed g ! unat s \<noteq> - 1"
  shows "n_links s (links g') + (if reserved s (pc th') then 1 else 0)
           + min (unat (n_tracks_per_seed g ! unat s)) (unat (max_num_branches_per_seed cfg))
       \<le> n_links s (links g) + (if reserved s (pc th) then 1 else 0)
           + min (unat (n_tracks_per_seed g' ! unat s)) (unat (max_num_branches_per_seed cfg))"
proof (cases "pc th")
  case (Reserve_branch prev seed meas_i trk)
  with step have r: "reserve_branch cfg prev seed meas_i trk (g, sh, th) = Inr (g', sh', th')"
    by (simp add: thread_step_def)
  show ?thesis
  proof (cases "seed = s")
    case True
    then show ?thesis
      using reserve_branch_Inr[OF r] s min_counter_step[OF nowrap, of "max_num_branches_per_seed cfg"]
      by (auto simp: Reserve_branch)
  next
    case False
    then have "unat seed \<noteq> unat s" by (simp add: unat_seed_eq)
    then show ?thesis using reserve_branch_Inr[OF r] s False by (auto simp: Reserve_branch)
  qed
next
  case (Hole_reserve prev seed)
  with step have r: "hole_reserve cfg prev seed (g, sh, th) = Inr (g', sh', th')"
    by (simp add: thread_step_def)
  show ?thesis
  proof (cases "seed = s")
    case True
    then show ?thesis
      using hole_reserve_Inr[OF r] s min_counter_step[OF nowrap, of "max_num_branches_per_seed cfg"]
      by (auto simp: Hole_reserve)
  next
    case False
    then have "unat seed \<noteq> unat s" by (simp add: unat_seed_eq)
    then show ?thesis using hole_reserve_Inr[OF r] s False by (auto simp: Hole_reserve)
  qed
next
  case (Append_link prev seed meas_i trk)
  with step have r: "append_link cfg pl prev seed meas_i trk (g, sh, th) = Inr (g', sh', th')"
    by (simp add: thread_step_def)
  show ?thesis using append_link_Inr[OF r] by (auto simp: Append_link)
next
  case (Hole_commit prev seed)
  with step have r: "hole_commit cfg pl tid prev seed (g, sh, th) = Inr (g', sh', th')"
    by (simp add: thread_step_def)
  show ?thesis using hole_commit_Inr[OF r] by (auto simp: Hole_commit split: if_splits)
qed (use thread_step_quiet[OF step] reserved_commits[of s "pc th'"] in \<open>auto\<close>)

section \<open>Branch accounting along a run\<close>

lemma kernel_step_counters:
  assumes "kernel_step upd cfg pl bdim i s = Inr s'"
  shows "length (n_tracks_per_seed (glob s')) = length (n_tracks_per_seed (glob s))
     \<and> (\<forall>k < length (n_tracks_per_seed (glob s)).
           n_tracks_per_seed (glob s') ! k = n_tracks_per_seed (glob s) ! k
           \<or> n_tracks_per_seed (glob s') ! k = n_tracks_per_seed (glob s) ! k + 1)"
  using assms
proof (cases rule: kernel_step_cases)
  case (thread g' sh' th')
  then show ?thesis using thread_step_counters[OF thread(4)] by simp
qed auto

lemma kernel_step_account:
  assumes step: "kernel_step upd cfg pl bdim i st = Inr st'"
    and s: "unat s < length (n_tracks_per_seed (glob st))"
    and nowrap: "n_tracks_per_seed (glob st) ! unat s \<noteq> - 1"
  shows "n_links s (links (glob st')) + n_reserved s (threads st')
           + min (unat (n_tracks_per_seed (glob st) ! unat s)) (unat (max_num_branches_per_seed cfg))
       \<le> n_links s (links (glob st)) + n_reserved s (threads st)
           + min (unat (n_tracks_per_seed (glob st') ! unat s)) (unat (max_num_branches_per_seed cfg))"
  using step
proof (cases rule: kernel_step_cases)
  case (thread g' sh' th')
  from thread_step_account[OF thread(4) s nowrap] n_reserved_update[OF thread(1), of s th']
  show ?thesis by (simp add: thread(5) split: if_splits)
qed auto

lemma unat_max_u32: "unat (- 1 :: u32) = 4294967295"
  by (simp add: unsigned_minus_1_eq_mask mask_eq_exp_minus_1)

lemma unat_counter_succ:
  assumes "unat (c :: u32) + 1 < 2 ^ 32"
  shows "unat (c + 1) = unat c + 1"
  using assms by (simp add: unat_word_ariths)

lemma find_tracks_account:
  assumes "find_tracks upd cfg pl bdim sched st = Inr st'"
    and "unat s < length (n_tracks_per_seed (glob st))"
    and "unat (n_tracks_per_seed (glob st) ! unat s) + length sched < 2 ^ 32"
  shows "length (n_tracks_per_seed (glob st')) = length (n_tracks_per_seed (glob st))
     \<and> unat (n_tracks_per_seed (glob st) ! unat s) \<le> unat (n_tracks_per_seed (glob st') ! unat s)
     \<and> unat (n_tracks_per_seed (glob st') ! unat s) \<le> unat (n_tracks_per_seed (glob st) ! unat s) + length sched
     \<and> n_links s (links (glob st')) + n_reserved s (threads st')
           + min (unat (n_tracks_per_seed (glob st) ! unat s)) (unat (max_num_branches_per_seed cfg))
       \<le> n_links s (links (glob st)) + n_reserved s (threads st)
           + min (unat (n_tracks_per_seed (glob st') ! unat s)) (unat (max_num_branches_per_seed cfg))"
  using assms
proof (induction sched arbitrary: st)
  case Nil
  then show ?case by simp
next
  case (Cons i sched)
  from Cons.prems(1) obtain st1 where k: "kernel_step upd cfg pl bdim i st = Inr st1"
    and r: "find_tracks upd cfg pl bdim sched st1 = Inr st'"
    by (auto split: sum.splits)
  let ?c = "n_tracks_per_seed (glob st) ! unat s"
  let ?c1 = "n_tracks_per_seed (glob st1) ! unat s"
  have small: "unat ?c + 1 < 2 ^ 32" using Cons.prems(3) by simp
  then have nowrap: "?c \<noteq> - 1" by (auto simp: unat_max_u32)
  have len: "length (n_tracks_per_seed (glob st1)) = length (n_tracks_per_seed (glob st))"
    and c1: "?c1 = ?c \<or> ?c1 = ?c + 1"
    using kernel_step_counters[OF k] Cons.prems(2) by auto
  have u1: "unat ?c \<le> unat ?c1" "unat ?c1 \<le> unat ?c + 1"
    using c1 unat_counter_succ[OF small] by auto
  have ih: "length (n_tracks_per_seed (glob st')) = length (n_tracks_per_seed (glob st1))
     \<and> unat ?c1 \<le> unat (n_tracks_per_seed (glob st') ! unat s)
     \<and> unat (n_tracks_per_seed (glob st') ! unat s) \<le> unat ?c1 + length sched
     \<and> n_links s (links (glob st')) + n_reserved s (threads st')
           + min (unat ?c1) (unat (max_num_branches_per_seed cfg))
       \<le> n_links s (links (glob st1)) + n_reserved s (threads st1)
           + min (unat (n_tracks_per_seed (glob st') ! unat s)) (unat (max_num_branches_per_seed cfg))"
    using Cons.IH[OF r] Cons.prems(2,3) len u1 by simp
  from kernel_step_account[OF k Cons.prems(2) nowrap] ih len u1
  show ?case by simp
qed

section \<open>Threads that have given up enqueueing\<close>

lemma length_open_barrier [simp]: "length (open_barrier B b ths) = length ths"
proof -
  have "length ths = length (take (b * B) ths @ block_threads B b ths @ drop (b * B + B) ths)"
    using split_block[of ths b B] by simp
  then show ?thesis by (simp add: open_barrier_def Let_def)
qed

lemma open_barrier_nth:
  assumes "i < length ths"
  shows "\<exists>any. open_barrier B b ths ! i = ths ! i
           \<or> open_barrier B b ths ! i = (ths ! i)\<lparr>pc := after_barrier any (pc (ths ! i))\<rparr>"
proof -
  define any where "any = list_ex (\<lambda>t. pc t = Block_or True) (block_threads B b ths)"
  define f where "f = (\<lambda>t :: thread_state. t\<lparr>pc := after_barrier any (pc t)\<rparr>)"
  have ob: "open_barrier B b ths = take (b * B) ths @ map f (block_threads B b ths) @ drop (b * B + B) ths"
    by (simp add: open_barrier_def Let_def any_def f_def)
  have sp: "ths = take (b * B) ths @ block_threads B b ths @ drop (b * B + B) ths"
    by (rule split_block)
  have "list_all2 (\<lambda>x y. y = x \<or> y = f x) ths (open_barrier B b ths)"
    apply (subst sp, subst ob)
    apply (intro list_all2_appendI)
      apply (simp_all add: list_all2_conv_all_nth)
    done
  then have "open_barrier B b ths ! i = ths ! i \<or> open_barrier B b ths ! i = f (ths ! i)"
    using assms by (auto simp: list_all2_conv_all_nth)
  then show ?thesis unfolding f_def by blast
qed






section \<open>Two threads race for the last branch of a seed\<close>

lemma n_measurement_links_le: "n_measurement_links s ls \<le> n_links s ls"
  unfolding n_measurement_links_def n_links_def
  by (induction ls) auto

lemma race_run:
  "\<exists>st'. find_tracks accept_all race_cfg race_payload 2 race_schedule (launch race_glob [race_shared] 2) = Inr st'
     \<and> returned st' \<and> n_tracks_per_seed (glob st') = [2]
     \<and> map meas_idx (links (glob st')) = [0] \<and> map seed_idx (links (glob st')) = [0]"
proof -
  have "case find_tracks accept_all race_cfg race_payload 2 race_schedule (launch race_glob [race_shared] 2) of
          Inl e \<Rightarrow> False
        | Inr st' \<Rightarrow> returned st' \<and> n_tracks_per_seed (glob st') = [2]
            \<and> map meas_idx (links (glob st')) = [0] \<and> map seed_idx (links (glob st')) = [0]"
    by code_simp
  then show ?thesis by (auto split: sum.splits)
qed

lemma hole_race_run:
  "\<exists>st'. find_tracks accept_all exhausted_cfg hole_race_payload 2 hole_race_schedule
            (launch exhausted_glob [race_shared] 2) = Inr st'
     \<and> returned st' \<and> n_tracks_per_seed (glob st') = [4]
     \<and> map meas_idx (links (glob st')) = [0, 1, hole_meas_idx] \<and> map seed_idx (links (glob st')) = [0, 0, 0]"
proof -
  have "case find_tracks accept_all exhausted_cfg hole_race_payload 2 hole_race_schedule
               (launch exhausted_glob [race_shared] 2) of
          Inl e \<Rightarrow> False
        | Inr st' \<Rightarrow> returned st' \<and> n_tracks_per_seed (glob st') = [4]
            \<and> map meas_idx (links (glob st')) = [0, 1, hole_meas_idx]
            \<and> map seed_idx (links (glob st')) = [0, 0, 0]"
    by code_simp
  then show ?thesis by (auto split: sum.splits)
qed

lemma rejected_runs:
  "\<exists>st. find_tracks fail_all race_cfg race_payload 2 round_robin (launch race_glob [race_shared] 2) = Inr st
     \<and> find_tracks exceed_all race_cfg race_payload 2 round_robin (launch race_glob [race_shared] 2) = Inr st
     \<and> returned st \<and> map meas_idx (links (glob st)) = [hole_meas_idx]"
proof -
  have "case find_tracks fail_all race_cfg race_payload 2 round_robin (launch race_glob [race_shared] 2) of
          Inl e \<Rightarrow> False
        | Inr st \<Rightarrow>
            find_tracks exceed_all race_cfg race_payload 2 round_robin (launch race_glob [race_shared] 2) = Inr st
            \<and> returned st \<and> map meas_idx (links (glob st)) = [hole_meas_idx]"
    by code_simp
  then show ?thesis by (auto split: sum.splits)
qed

lemma accepted_run:
  "\<exists>st. find_tracks accept_all race_cfg race_payload 2 round_robin (launch race_glob [race_shared] 2) = Inr st
     \<and> returned st \<and> map meas_idx (links (glob st)) = [0] \<and> n_tracks_per_seed (glob st) = [2]"
proof -
  have "case find_tracks accept_all race_cfg race_payload 2 round_robin (launch race_glob [race_shared] 2) of
          Inl e \<Rightarrow> False
        | Inr st \<Rightarrow> returned st \<and> map meas_idx (links (glob st)) = [0] \<and> n_tracks_per_seed (glob st) = [2]"
    by code_simp
  then show ?thesis by (auto split: sum.splits)
qed

section \<open>Runs of a single thread\<close>

lemma find_tracks_append:
  "find_tracks upd cfg pl bdim (xs @ ys) st =
     (case find_tracks upd cfg pl bdim xs st of
        Inl e \<Rightarrow> Inl e
      | Inr st1 \<Rightarrow> find_tracks upd cfg pl bdim ys st1)"
  by (induction xs arbitrary: st) (auto split: sum.splits)

lemma find_tracks_replicate_Suc:
  "find_tracks upd cfg pl bdim (replicate (Suc n) i) st =
     (case find_tracks upd cfg pl bdim (replicate n i) st of
        Inl e \<Rightarrow> Inl e
      | Inr st1 \<Rightarrow> kernel_step upd cfg pl bdim i st1)"
proof -
  have "replicate (Suc n) i = replicate n i @ [i]"
    by (simp add: replicate_append_same)
  then show ?thesis
    by (simp only: find_tracks_append) (auto split: sum.splits)
qed

lemma find_tracks_fault_stays:
  assumes "find_tracks upd cfg pl bdim xs st = Inl e"
  shows "find_tracks upd cfg pl bdim (xs @ ys) st = Inl e"
  using assms by (simp add: find_tracks_append)

lemma kernel_step_single:
  assumes "\<not> is_barrier p"
    and "thread_step upd cfg pl single_thread (g, sh, th\<lparr>pc := p\<rparr>) = Inr (g', sh', th')"
  shows "kernel_step upd cfg pl 1 0 \<lparr>glob = g, blocks = [sh], threads = [th\<lparr>pc := p\<rparr>]\<rparr>
           = Inr \<lparr>glob = g', blocks = [sh'], threads = [th']\<rparr>"
  using assms by (simp add: kernel_step_def Let_def single_thread_def)

lemma kernel_step_single_fault:
  assumes "\<not> is_barrier p"
    and "thread_step upd cfg pl single_thread (g, sh, th\<lparr>pc := p\<rparr>) = Inl e"
  shows "kernel_step upd cfg pl 1 0 \<lparr>glob = g, blocks = [sh], threads = [th\<lparr>pc := p\<rparr>]\<rparr> = Inl e"
  using assms by (simp add: kernel_step_def Let_def single_thread_def)

lemma kernel_step_single_barrier:
  assumes "is_barrier p"
  shows "kernel_step upd cfg pl 1 0 \<lparr>glob = g, blocks = [sh], threads = [th\<lparr>pc := p\<rparr>]\<rparr>
           = Inr \<lparr>glob = g, blocks = [sh], threads = [th\<lparr>pc := after_barrier (p = Block_or True) p\<rparr>]\<rparr>"
  using assms by (cases p) (auto simp: kernel_step_def Let_def block_threads_def open_barrier_def)

section \<open>Branches of a well-formed link table\<close>

lemma wf_linksD:
  assumes "wf_links pl" and "j < length (links_view pl)"
  shows "wf_link pl j"
  using assms by (simp add: wf_links_def list_all_iff)

lemma wf_link_root:
  assumes "wf_link pl j" and "step (links_view pl ! j) = 0"
  shows "unat (n_skipped (links_view pl ! j)) = (if is_hole pl (links_view pl ! j) then 1 else 0)"
  using assms by (simp add: wf_link_def Let_def)

lemma wf_link_child:
  assumes "wf_link pl j" and "step (links_view pl ! j) \<noteq> 0"
  shows "unat (previous_candidate_idx (links_view pl ! j)) < j"
    and "unat (step (links_view pl ! unat (previous_candidate_idx (links_view pl ! j)))) + 1
           = unat (step (links_view pl ! j))"
    and "unat (n_skipped (links_view pl ! j))
           = unat (n_skipped (links_view pl ! unat (previous_candidate_idx (links_view pl ! j))))
             + (if is_hole pl (links_view pl ! j) then 1 else 0)"
  using assms by (simp_all add: wf_link_def Let_def)

lemma wf_link_measured:
  assumes "wf_link pl j" and "\<not> is_hole pl (links_view pl ! j)"
  shows "0 \<le> chi2 (links_view pl ! j)" and "chi2 (links_view pl ! j) < scalar_max"
    and "unat (seed_idx (links_view pl ! j)) < length (seeds_view pl)"
  using assms by (simp_all add: wf_link_def Let_def)

lemma ancestry_root:
  assumes "step (ls ! j) = 0"
  shows "ancestry ls j = [j]"
  using assms by (simp add: ancestry_def)

lemma ancestry_child:
  assumes "wf_link pl j" and "step (links_view pl ! j) \<noteq> 0"
  shows "ancestry (links_view pl) j
           = ancestry (links_view pl) (unat (previous_candidate_idx (links_view pl ! j))) @ [j]"
proof -
  from wf_link_child(2)[OF assms]
  obtain k where k: "unat (step (links_view pl ! j)) = Suc k"
    and p: "unat (step (links_view pl ! unat (previous_candidate_idx (links_view pl ! j)))) = k"
    by (metis Suc_eq_plus1)
  show ?thesis by (simp add: ancestry_def k p)
qed

lemma measured_root:
  assumes "step (links_view pl ! j) = 0"
  shows "measured pl j = (if is_hole pl (links_view pl ! j) then [] else [j])"
  using assms by (simp add: measured_def ancestry_root)

lemma measured_child:
  assumes "wf_link pl j" and "step (links_view pl ! j) \<noteq> 0"
  shows "measured pl j = measured pl (unat (previous_candidate_idx (links_view pl ! j)))
           @ (if is_hole pl (links_view pl ! j) then [] else [j])"
  using ancestry_child[OF assms] by (simp add: measured_def)

text \<open>The ancestry is strictly increasing and ends at the link itself.\<close>

lemma ancestry_sorted:
  assumes "wf_links pl" and "j < length (links_view pl)"
  shows "sorted_wrt (<) (ancestry (links_view pl) j) \<and> last (ancestry (links_view pl) j) = j
     \<and> ancestry (links_view pl) j \<noteq> [] \<and> (\<forall>i \<in> set (ancestry (links_view pl) j). i \<le> j)"
  using assms(2)
proof (induction j rule: less_induct)
  case (less j)
  have wf: "wf_link pl j" using wf_linksD[OF assms(1) less.prems] .
  show ?case
  proof (cases "step (links_view pl ! j) = 0")
    case True
    then show ?thesis by (simp add: ancestry_root)
  next
    case False
    let ?p = "unat (previous_candidate_idx (links_view pl ! j))"
    have p: "?p < j" using wf_link_child(1)[OF wf False] .
    from less.IH[OF p] p less.prems
    have ih: "sorted_wrt (<) (ancestry (links_view pl) ?p)" "\<forall>i \<in> set (ancestry (links_view pl) ?p). i \<le> ?p"
      by auto
    show ?thesis
      using ih p by (auto simp: ancestry_child[OF wf False] sorted_wrt_append)
  qed
qed

text \<open>The measurement links of a branch are its links that were not skipped.\<close>

lemma measured_count:
  assumes "wf_links pl" and "j < length (links_view pl)"
  shows "length (measured pl j) + unat (n_skipped (links_view pl ! j)) = unat (step (links_view pl ! j)) + 1"
  using assms(2)
proof (induction j rule: less_induct)
  case (less j)
  have wf: "wf_link pl j" using wf_linksD[OF assms(1) less.prems] .
  show ?case
  proof (cases "step (links_view pl ! j) = 0")
    case True
    then show ?thesis using wf_link_root[OF wf True] by (simp add: measured_root)
  next
    case False
    let ?p = "unat (previous_candidate_idx (links_view pl ! j))"
    have p: "?p < j" using wf_link_child(1)[OF wf False] .
    from less.IH[OF p] p less.prems wf_link_child(2,3)[OF wf False]
    show ?thesis by (simp add: measured_child[OF wf False])
  qed
qed

lemma n_cands_measured:
  assumes "wf_links pl" and "j < length (links_view pl)"
  shows "unat (step (links_view pl ! j) + 1 - n_skipped (links_view pl ! j)) = length (measured pl j)"
proof -
  let ?L = "links_view pl ! j"
  have wf: "wf_link pl j" using wf_linksD[OF assms] .
  then have small: "unat (step ?L) + 1 < 2 ^ 32" by (simp add: wf_link_def Let_def)
  then have s1: "unat (step ?L + 1) = unat (step ?L) + 1"
    by (simp add: unat_word_ariths)
  have le: "unat (n_skipped ?L) \<le> unat (step ?L + 1)"
    using measured_count[OF assms] s1 by simp
  then have "n_skipped ?L \<le> step ?L + 1" by (simp add: word_le_nat_alt)
  then have "unat (step ?L + 1 - n_skipped ?L) = unat (step ?L + 1) - unat (n_skipped ?L)"
    by (rule unat_sub)
  then show ?thesis using measured_count[OF assms] s1 by simp
qed

section \<open>The walk of \<^verbatim>\<open>build_tracks\<close> on a well-formed link table\<close>

lemma measured_last:
  assumes "wf_link pl j" and "\<not> is_hole pl (links_view pl ! j)"
  shows "\<exists>pre. measured pl j = pre @ [j]
     \<and> (step (links_view pl ! j) = 0 \<longrightarrow> pre = [])
     \<and> (step (links_view pl ! j) \<noteq> 0 \<longrightarrow>
          pre = measured pl (unat (previous_candidate_idx (links_view pl ! j))))"
  using assms measured_root[of pl j] measured_child[of pl j]
  by (cases "step (links_view pl ! j) = 0") auto

lemma at_vec_nth: "unat i < length xs \<Longrightarrow> at_vec xs i = Inr (xs ! unat i)"
  by (simp add: at_vec_def)

lemma not_hole_index:
  assumes "length (bt_measurements_view pl) < 2 ^ 32" and "\<not> is_hole pl L"
  shows "unat (meas_idx L) < length (bt_measurements_view pl)"
proof -
  have "unat (of_nat (length (bt_measurements_view pl)) :: u32) = length (bt_measurements_view pl)"
    using assms(1) by (intro of_nat_inverse[OF refl]) simp
  moreover have "meas_idx L < of_nat (length (bt_measurements_view pl))"
    using assms(2) by (simp add: is_hole_def not_le)
  ultimately show ?thesis by (simp add: word_less_nat_alt)
qed

lemma skip_holes_measured:
  assumes "wf_links pl" and "j < length (links_view pl)" and "measured pl j \<noteq> []"
  shows "\<exists>j' \<le> j. skip_holes (links_view pl) (of_nat (length (bt_measurements_view pl))) (links_view pl ! j)
              = Some (Inr (links_view pl ! j'))
           \<and> \<not> is_hole pl (links_view pl ! j') \<and> measured pl j' = measured pl j"
  using assms(2,3)
proof (induction j rule: less_induct)
  case (less j)
  let ?ls = "links_view pl" and ?n = "of_nat (length (bt_measurements_view pl)) :: u32"
  have wf: "wf_link pl j" using wf_linksD[OF assms(1) less.prems(1)] .
  show ?case
  proof (cases "is_hole pl (?ls ! j)")
    case False
    then have "skip_holes ?ls ?n (?ls ! j) = Some (Inr (?ls ! j))"
      by (subst skip_holes.simps) (simp add: is_hole_def)
    with False show ?thesis by auto
  next
    case True
    then have nz: "step (?ls ! j) \<noteq> 0"
      using less.prems(2) measured_root[of pl j] by auto
    let ?p = "unat (previous_candidate_idx (?ls ! j))"
    have p: "?p < j" using wf_link_child(1)[OF wf nz] .
    have m: "measured pl j = measured pl ?p" using measured_child[OF wf nz] True by simp
    from less.IH[OF p] p less.prems m
    obtain j' where j': "j' \<le> ?p" "skip_holes ?ls ?n (?ls ! ?p) = Some (Inr (?ls ! j'))"
      "\<not> is_hole pl (?ls ! j')" "measured pl j' = measured pl ?p"
      by auto
    have "skip_holes ?ls ?n (?ls ! j) = skip_holes ?ls ?n (?ls ! ?p)"
      using True nz p less.prems(1)
      by (subst skip_holes.simps) (simp add: is_hole_def at_vec_nth)
    with j' m p show ?thesis by (intro exI[of _ j']) auto
  qed
qed

lemma fill_candidates_assembled:
  assumes "wf_links pl" and "j < length (links_view pl)" and "k = length (measured pl j)"
  shows "fill_candidates ar prob pl k (links_view pl ! j) ndf_sum chi2_sum acc tc
           = Some (Inr (assembled ar prob pl j ndf_sum chi2_sum acc tc))"
  using assms(2,3)
proof (induction k arbitrary: j ndf_sum chi2_sum acc)
  case 0
  then show ?case by (simp add: assembled_def)
next
  case (Suc k)
  let ?ls = "links_view pl" and ?ms = "bt_measurements_view pl"
  have ne: "measured pl j \<noteq> []" using Suc.prems(2) by auto
  from skip_holes_measured[OF assms(1) Suc.prems(1) ne]
  obtain j' where j': "j' \<le> j" "skip_holes ?ls (of_nat (length ?ms)) (?ls ! j) = Some (Inr (?ls ! j'))"
    "\<not> is_hole pl (?ls ! j')" "measured pl j' = measured pl j"
    by blast
  have j'len: "j' < length ?ls" using j'(1) Suc.prems(1) by simp
  have wf: "wf_link pl j'" using wf_linksD[OF assms(1) j'len] .
  have small: "length ?ms < 2 ^ 32" using assms(1) by (simp add: wf_links_def)
  have mi: "at_vec ?ms (meas_idx (?ls ! j')) = Inr (?ms ! unat (meas_idx (?ls ! j')))"
    using not_hole_index[OF small j'(3)] by (simp add: at_vec_nth)
  have c: "chi2 (?ls ! j') < scalar_max" "0 \<le> chi2 (?ls ! j')"
    and sd: "at_vec (seeds_view pl) (seed_idx (?ls ! j')) = Inr (seeds_view pl ! unat (seed_idx (?ls ! j')))"
    using wf_link_measured[OF wf j'(3)] by (simp_all add: at_vec_nth)
  from measured_last[OF wf j'(3)] obtain pre where pre: "measured pl j' = pre @ [j']"
    "step (?ls ! j') = 0 \<longrightarrow> pre = []"
    "step (?ls ! j') \<noteq> 0 \<longrightarrow> pre = measured pl (unat (previous_candidate_idx (?ls ! j')))"
    by blast
  have lpre: "length pre = k" using pre(1) j'(4) Suc.prems(2) by simp
  let ?nd = "sc_add ar ndf_sum (sc_of_uint ar (meas_dim (?ms ! unat (meas_idx (?ls ! j')))))"
  let ?ch = "sc_add ar chi2_sum (chi2 (?ls ! j'))"
  show ?case
  proof (cases "k = 0")
    case True
    then have "measured pl j = [j']" using pre(1) lpre j'(4) by simp
    then show ?thesis
      using j'(2) mi c sd True by (simp add: assembled_def Let_def)
  next
    case False
    then have nz: "step (?ls ! j') \<noteq> 0" using pre(2) lpre by auto
    let ?p = "unat (previous_candidate_idx (?ls ! j'))"
    have p: "?p < j'" using wf_link_child(1)[OF wf nz] .
    then have plen: "?p < length ?ls" using j'len by simp
    have mp: "measured pl ?p = pre" using pre(3) nz by simp
    have mj: "measured pl j = measured pl ?p @ [j']" using pre(1) mp j'(4) by simp
    have pne: "measured pl ?p \<noteq> []" using mp lpre False by auto
    have ih: "fill_candidates ar prob pl k (?ls ! ?p) ?nd ?ch (?ms ! unat (meas_idx (?ls ! j')) # acc) tc
              = Some (Inr (assembled ar prob pl ?p ?nd ?ch (?ms ! unat (meas_idx (?ls ! j')) # acc) tc))"
      using Suc.IH[OF plen] mp lpre by simp
    have eq: "assembled ar prob pl ?p ?nd ?ch (?ms ! unat (meas_idx (?ls ! j')) # acc) tc
              = assembled ar prob pl j ndf_sum chi2_sum acc tc"
      using pne by (simp add: assembled_def Let_def mj)
    show ?thesis
      using j'(2) mi c sd False ih eq plen by (simp add: Let_def at_vec_nth)
  qed
qed

lemma build_tracks_assembled:
  assumes "wf_links pl" and "unat gi < length (tips_view pl)"
    and "unat (tips_view pl ! unat gi) < length (links_view pl)"
    and "step (links_view pl ! unat (tips_view pl ! unat gi)) + 1
           - n_skipped (links_view pl ! unat (tips_view pl ! unat gi)) \<le> cands_capacity pl"
  shows "build_tracks ar prob gi pl tc
           = Some (Inr (assembled ar prob pl (unat (tips_view pl ! unat gi)) 0 0 [] tc))"
  using assms fill_candidates_assembled[OF assms(1,3) n_cands_measured[OF assms(1,3)], of ar prob 0 0 "[]" tc]
  by (simp add: build_tracks_def at_vec_nth Let_def)

section \<open>Evaluating the concrete branches\<close>

lemma chain_numeral:
  "chain ls (numeral n) j = chain ls (pred_numeral n) (unat (previous_candidate_idx (ls ! j))) @ [j]"
  by (simp add: numeral_eq_Suc)

lemma wf_branch_payload: "wf_links branch_payload"
  by (simp add: wf_links_def wf_link_def is_hole_def branch_payload_def Let_def hole_meas_idx_def
      scalar_max_def word_le_nat_alt unat_max_u32)


lemma ancestry_branch_payload: "ancestry (links_view branch_payload) 2 = [0, 1, 2]"
  by (simp add: ancestry_def branch_payload_def chain_numeral)

lemma emitted_branch_payload:
  "filter (\<lambda>i. \<not> is_hole branch_payload (links_view branch_payload ! i))
     (ancestry (links_view branch_payload) 2) = [0, 2]"
  by (simp add: ancestry_branch_payload)
    (simp add: is_hole_def branch_payload_def hole_meas_idx_def word_le_nat_alt unat_max_u32)

lemma tip_branch_payload:
  "unat (0 :: u32) < length (tips_view branch_payload)"
  "(2 :: nat) = unat (tips_view branch_payload ! unat (0 :: u32))"
  "(2 :: nat) < length (links_view branch_payload)"
  "step (links_view branch_payload ! 2) + 1 - n_skipped (links_view branch_payload ! 2)
     \<le> cands_capacity branch_payload"
  by (simp_all add: branch_payload_def)

section \<open>The link table stays well formed along a step\<close>

lemma at_vec_Inr: "at_vec xs i = Inr v \<Longrightarrow> unat i < length xs \<and> v = xs ! unat i"
  by (auto simp: at_vec_def split: if_splits)

lemma payload_contract_parent:
  assumes "payload_contract cfg pl ls0" and "at_vec (in_params_liveness_view pl) slot = Inr live"
    and "live \<noteq> 0" and "unat seed < n"
  shows "parent_ok pl ls0 n (prev_links_idx pl + slot) seed"
proof (cases "payload_step pl = 0")
  case True
  then show ?thesis using assms(4) by (simp add: parent_ok_def)
next
  case False
  from at_vec_Inr[OF assms(2)] have i: "unat slot < length (in_params_liveness_view pl)"
    and l: "in_params_liveness_view pl ! unat slot = live" by simp_all
  from assms(1) False
  have "\<forall>i < length (in_params_liveness_view pl). in_params_liveness_view pl ! i = 0 \<or>
         (unat (prev_links_idx pl + of_nat i) < length ls0
          \<and> unat (step (ls0 ! unat (prev_links_idx pl + of_nat i))) + 1 = unat (payload_step pl))"
    by (simp add: payload_contract_def list_all_iff)
  from this[rule_format, OF i] l assms(3,4) show ?thesis by (simp add: parent_ok_def)
qed

lemma slot_seed_bound:
  "at_vec (n_tracks_per_seed g) seed = Inr c \<Longrightarrow> unat seed < length (n_tracks_per_seed g)"
  by (auto dest: at_vec_Inr)

lemma process_load_regs:
  assumes "process_load upd cfg pl tid (g, sh, th) = Inr (g', sh', th')"
    and "payload_contract cfg pl ls0"
  shows "regs_ok cfg pl ls0 (length (n_tracks_per_seed g)) (pc th')"
  using assms
  by (auto simp: process_load_def Let_def split: sum.splits if_splits prod.splits
      dest!: at_vec_Inr[where xs = "measurements_view pl"] slot_seed_bound
      intro!: payload_contract_parent)

lemma hole_check_regs:
  assumes "hole_check pl tid (g, sh, th) = Inr (g', sh', th')"
    and "payload_contract cfg pl ls0"
  shows "regs_ok cfg pl ls0 (length (n_tracks_per_seed g)) (pc th')"
  using assms
  by (auto simp: hole_check_def Let_def split: sum.splits if_splits
      dest!: slot_seed_bound intro!: payload_contract_parent)

lemma assembly_payload_simps [simp]:
  "links_view (assembly_payload pl sds cap g) = links g"
  "bt_measurements_view (assembly_payload pl sds cap g) = measurements_view pl"
  "seeds_view (assembly_payload pl sds cap g) = sds"
  "tips_view (assembly_payload pl sds cap g) = tips g"
  by (simp_all add: assembly_payload_def)

lemma is_hole_assembly:
  "is_hole (assembly_payload pl sds cap g) L \<longleftrightarrow> meas_idx L \<ge> of_nat (length (measurements_view pl))"
  by (simp add: is_hole_def)

lemma wf_link_old:
  assumes "j < length (links g)" and "links g' = links g @ [L]"
  shows "wf_link (assembly_payload pl sds cap g') j = wf_link (assembly_payload pl sds cap g) j"
  using assms
  by (auto simp: wf_link_def Let_def nth_append is_hole_assembly)

lemma wf_links_append:
  assumes "wf_links (assembly_payload pl sds cap g)" and "links g' = links g @ [L]"
    and "wf_link (assembly_payload pl sds cap g') (length (links g))"
  shows "wf_links (assembly_payload pl sds cap g')"
  using assms wf_link_old[OF _ assms(2), of _ pl sds cap]
  by (auto simp: wf_links_def list_all_iff less_Suc_eq)

lemma wf_link_same:
  assumes "links g' = links g"
  shows "wf_link (assembly_payload pl sds cap g') j = wf_link (assembly_payload pl sds cap' g) j"
  using assms by (simp add: wf_link_def is_hole_assembly)

lemma wf_links_same:
  assumes "wf_links (assembly_payload pl sds cap g)" and "links g' = links g"
  shows "wf_links (assembly_payload pl sds cap' g')"
proof -
  have "wf_link (assembly_payload pl sds cap' g') = wf_link (assembly_payload pl sds cap g)"
    using wf_link_same[OF assms(2)] by blast
  then show ?thesis using assms by (simp add: wf_links_def assms(2))
qed

lemma measurement_not_hole:
  assumes "length (measurements_view pl) < 2 ^ 32" and "unat m < length (measurements_view pl)"
  shows "\<not> (m :: u32) \<ge> of_nat (length (measurements_view pl))"
proof -
  have "unat (of_nat (length (measurements_view pl)) :: u32) = length (measurements_view pl)"
    using assms(1) by (intro of_nat_inverse[OF refl]) simp
  then show ?thesis using assms(2) by (simp add: word_le_nat_alt)
qed

lemma hole_is_hole: "hole_meas_idx \<ge> (x :: u32)"
  by (simp add: hole_meas_idx_def)

lemma parent_lookup:
  assumes "glob_inv pl ls0 sds g" and "unat prev < length ls0"
  shows "at_vec (links g) prev = Inr (ls0 ! unat prev)" and "links g ! unat prev = ls0 ! unat prev"
proof -
  from assms have a: "take (length ls0) (links g) = ls0" "length ls0 \<le> length (links g)"
    by (simp_all add: glob_inv_def)
  have "links g ! unat prev = take (length ls0) (links g) ! unat prev"
    using assms(2) by simp
  then show "links g ! unat prev = ls0 ! unat prev" using a by simp
  then show "at_vec (links g) prev = Inr (ls0 ! unat prev)"
    using a assms(2) by (simp add: at_vec_def)
qed

lemma wf_measurement_link:
  assumes inv: "glob_inv pl ls0 sds g" and con: "payload_contract cfg pl ls0"
    and par: "parent_ok pl ls0 (length sds) prev seed"
    and m: "unat meas_i < length (measurements_view pl)"
    and c: "0 \<le> x" "x < chi2_max cfg"
    and sk: "parent_n_skipped pl g prev = Inr skipped"
    and g': "links g' = links g @ [\<lparr>step = payload_step pl, previous_candidate_idx = prev,
               meas_idx = meas_i, seed_idx = seed, n_skipped = skipped, chi2 = x\<rparr>]"
  shows "wf_link (assembly_payload pl sds cap g') (length (links g))"
proof -
  have nh: "\<not> meas_i \<ge> of_nat (length (measurements_view pl))"
    using measurement_not_hole[OF _ m] con by (simp add: payload_contract_def)
  have small: "unat (payload_step pl) + 1 < 2 ^ 32" and cm: "x < scalar_max"
    using con c by (simp_all add: payload_contract_def)
  have sd: "unat seed < length sds" using par by (simp add: parent_ok_def)
  show ?thesis
  proof (cases "payload_step pl = 0")
    case True
    then have "skipped = 0" using sk by (simp add: parent_n_skipped_def)
    then show ?thesis
      using True small cm c nh sd by (simp add: wf_link_def g' is_hole_assembly)
  next
    case False
    then have p: "unat prev < length ls0" "unat (step (ls0 ! unat prev)) + 1 = unat (payload_step pl)"
      using par by (simp_all add: parent_ok_def)
    have le: "length ls0 \<le> length (links g)" using inv by (simp add: glob_inv_def)
    have "skipped = n_skipped (ls0 ! unat prev)"
      using sk False parent_lookup(1)[OF inv p(1)] by (simp add: parent_n_skipped_def)
    then show ?thesis
      using False small cm c nh sd p le parent_lookup(2)[OF inv p(1)]
      by (simp add: wf_link_def g' is_hole_assembly nth_append)
  qed
qed

lemma n_skipped_bound:
  assumes "wf_links pl" and "j < length (links_view pl)"
  shows "unat (n_skipped (links_view pl ! j)) \<le> unat (step (links_view pl ! j)) + 1"
  using measured_count[OF assms] by simp

lemma wf_hole_link:
  assumes inv: "glob_inv pl ls0 sds g" and con: "payload_contract cfg pl ls0"
    and par: "parent_ok pl ls0 (length sds) prev seed"
    and sk: "parent_n_skipped pl g prev = Inr skipped"
    and g': "links g' = links g @ [\<lparr>step = payload_step pl, previous_candidate_idx = prev,
               meas_idx = hole_meas_idx, seed_idx = seed, n_skipped = skipped + 1, chi2 = scalar_max\<rparr>]"
  shows "wf_link (assembly_payload pl sds cap g') (length (links g))"
proof -
  have small: "unat (payload_step pl) + 1 < 2 ^ 32"
    using con by (simp add: payload_contract_def)
  show ?thesis
  proof (cases "payload_step pl = 0")
    case True
    then have "skipped = 0" using sk by (simp add: parent_n_skipped_def)
    then show ?thesis
      using True small by (simp add: wf_link_def g' is_hole_assembly hole_is_hole)
  next
    case False
    then have p: "unat prev < length ls0" "unat (step (ls0 ! unat prev)) + 1 = unat (payload_step pl)"
      using par by (simp_all add: parent_ok_def)
    have le: "length ls0 \<le> length (links g)" using inv by (simp add: glob_inv_def)
    have wf: "wf_links (assembly_payload pl sds 0 g)" using inv by (simp add: glob_inv_def)
    have s: "skipped = n_skipped (ls0 ! unat prev)"
      using sk False parent_lookup(1)[OF inv p(1)] by (simp add: parent_n_skipped_def)
    have "unat (n_skipped (links g ! unat prev)) \<le> unat (step (links g ! unat prev)) + 1"
      using n_skipped_bound[OF wf, of "unat prev"] p(1) le by simp
    then have "unat skipped + 1 < 2 ^ 32"
      using s p(2) small parent_lookup(2)[OF inv p(1)] by simp
    then have "unat (skipped + 1) = unat skipped + 1"
      by (rule unat_counter_succ)
    then show ?thesis
      using False small s p le parent_lookup(2)[OF inv p(1)]
      by (simp add: wf_link_def g' is_hole_assembly nth_append hole_is_hole)
  qed
qed

lemma append_link_tips:
  "append_link cfg pl prev seed meas_i trk (g, sh, th) = Inr (g', sh', th') \<Longrightarrow>
     \<not> filtered_chi2 trk < 0 \<and> length (links g) < unat (links_capacity pl)
     \<and> (tips g' = tips g \<or> tips g' = tips g @ [of_nat (length (links g))])"
  by (auto simp: append_link_def Let_def push_back_vec_def split: if_splits sum.splits
      dest!: emplace_link_Inr)

lemma glob_inv_counters:
  assumes "glob_inv pl ls0 sds g" and "links g' = links g" and "tips g' = tips g"
    and "length (n_tracks_per_seed g') = length (n_tracks_per_seed g)"
  shows "glob_inv pl ls0 sds g'"
  using assms wf_links_same[of pl sds 0 g g' 0] by (simp add: glob_inv_def)

lemma glob_inv_new_link:
  assumes inv: "glob_inv pl ls0 sds g" and l: "links g' = links g @ [L]"
    and wf: "wf_link (assembly_payload pl sds 0 g') (length (links g))"
    and t: "tips g' = tips g \<or> (\<exists>t. tips g' = tips g @ [t] \<and> unat t \<le> length (links g))"
    and c: "n_tracks_per_seed g' = n_tracks_per_seed g"
  shows "glob_inv pl ls0 sds g'"
proof -
  from inv have a: "take (length ls0) (links g) = ls0" "length ls0 \<le> length (links g)"
    "wf_links (assembly_payload pl sds 0 g)" "list_all (\<lambda>t. unat t < length (links g)) (tips g)"
    "length (n_tracks_per_seed g) = length sds"
    by (simp_all add: glob_inv_def)
  have "list_all (\<lambda>t. unat t < length (links g')) (tips g)"
    using a(4) by (auto simp: list_all_iff l)
  then have "list_all (\<lambda>t. unat t < length (links g')) (tips g')"
    using t by (auto simp: l)
  moreover have "wf_links (assembly_payload pl sds 0 g')"
    using wf_links_append[OF a(3) l wf] .
  ultimately show ?thesis using a l c by (simp add: glob_inv_def)
qed

lemma unat_l_pos:
  assumes "n < unat (cap :: u32)"
  shows "unat (of_nat n :: u32) = n"
proof -
  have "unat cap < 2 ^ 32" using unsigned_less[of cap] by simp
  then show ?thesis using assms by (intro of_nat_inverse[OF refl]) simp
qed

lemma thread_step_inv:
  assumes step: "thread_step upd cfg pl tid (g, sh, th) = Inr (g', sh', th')"
    and con: "payload_contract cfg pl ls0"
    and inv: "glob_inv pl ls0 sds g"
    and regs: "regs_ok cfg pl ls0 (length sds) (pc th)"
  shows "glob_inv pl ls0 sds g' \<and> regs_ok cfg pl ls0 (length sds) (pc th')"
proof -
  have n: "length (n_tracks_per_seed g) = length sds" using inv by (simp add: glob_inv_def)
  show ?thesis
  proof (cases "pc th")
    case Process_load
    with step have s: "process_load upd cfg pl tid (g, sh, th) = Inr (g', sh', th')"
      by (simp add: thread_step_def)
    from process_load_frame[OF s] process_load_regs[OF s con] inv n show ?thesis by simp
  next
    case Hole_check
    with step have s: "hole_check pl tid (g, sh, th) = Inr (g', sh', th')"
      by (simp add: thread_step_def)
    from hole_check_frame[OF s] hole_check_regs[OF s con] inv n show ?thesis by simp
  next
    case (Count_candidate owner prev seed meas_i trk)
    with step have s: "count_candidate owner prev seed meas_i trk (g, sh, th) = Inr (g', sh', th')"
      by (simp add: thread_step_def)
    from count_candidate_Inr[OF s] inv regs show ?thesis by (simp add: Count_candidate)
  next
    case (Reserve_branch prev seed meas_i trk)
    with step have s: "reserve_branch cfg prev seed meas_i trk (g, sh, th) = Inr (g', sh', th')"
      by (simp add: thread_step_def)
    from reserve_branch_Inr[OF s] regs glob_inv_counters[OF inv, of g']
    show ?thesis by (simp add: Reserve_branch)
  next
    case (Hole_reserve prev seed)
    with step have s: "hole_reserve cfg prev seed (g, sh, th) = Inr (g', sh', th')"
      by (simp add: thread_step_def)
    from hole_reserve_Inr[OF s] regs glob_inv_counters[OF inv, of g']
    show ?thesis by (simp add: Hole_reserve)
  next
    case (Append_link prev seed meas_i trk)
    with step have s: "append_link cfg pl prev seed meas_i trk (g, sh, th) = Inr (g', sh', th')"
      by (simp add: thread_step_def)
    from regs have r: "parent_ok pl ls0 (length sds) prev seed" "unat meas_i < length (measurements_view pl)"
      "filtered_chi2 trk < chi2_max cfg"
      by (simp_all add: Append_link)
    from append_link_Inr[OF s] obtain skipped where sk: "parent_n_skipped pl g prev = Inr skipped"
      and l: "links g' = links g @ [\<lparr>step = payload_step pl, previous_candidate_idx = prev,
                             meas_idx = meas_i, seed_idx = seed, n_skipped = skipped,
                             chi2 = filtered_chi2 trk\<rparr>]"
      and c: "n_tracks_per_seed g' = n_tracks_per_seed g" and p: "th' = th\<lparr>pc := Barrier_processed\<rparr>"
      by blast
    from append_link_tips[OF s] have pos: "0 \<le> filtered_chi2 trk"
      and cap: "length (links g) < unat (links_capacity pl)"
      and t: "tips g' = tips g \<or> tips g' = tips g @ [of_nat (length (links g))]"
      by auto
    have wf: "wf_link (assembly_payload pl sds 0 g') (length (links g))"
      using wf_measurement_link[OF inv con r(1,2) pos r(3) sk l] .
    have "tips g' = tips g \<or> (\<exists>t. tips g' = tips g @ [t] \<and> unat t \<le> length (links g))"
      using t unat_l_pos[OF cap] by auto
    from glob_inv_new_link[OF inv l wf this c] p show ?thesis by simp
  next
    case (Hole_commit prev seed)
    with step have s: "hole_commit cfg pl tid prev seed (g, sh, th) = Inr (g', sh', th')"
      by (simp add: thread_step_def)
    from regs have r: "parent_ok pl ls0 (length sds) prev seed"
      by (simp add: Hole_commit)
    from hole_commit_Inr[OF s] obtain skipped where sk: "parent_n_skipped pl g prev = Inr skipped"
      and e: "if skipped \<ge> max_num_skipping_per_cand cfg \<or> last_step cfg pl
         then links g' = links g \<and>
              (if payload_step pl - skipped \<ge> min_track_candidates_per_track cfg
               then payload_step pl > 0 \<and> tips g' = tips g @ [prev] else tips g' = tips g)
         else links g' = links g @ [\<lparr>step = payload_step pl, previous_candidate_idx = prev,
                                   meas_idx = hole_meas_idx, seed_idx = seed,
                                   n_skipped = skipped + 1, chi2 = scalar_max\<rparr>]
              \<and> tips g' = tips g"
      and c: "n_tracks_per_seed g' = n_tracks_per_seed g" and p: "th' = th\<lparr>pc := Return\<rparr>"
      by blast
    show ?thesis
    proof (cases "skipped \<ge> max_num_skipping_per_cand cfg \<or> last_step cfg pl")
      case False
      with e have l: "links g' = links g @ [\<lparr>step = payload_step pl, previous_candidate_idx = prev,
                                   meas_idx = hole_meas_idx, seed_idx = seed,
                                   n_skipped = skipped + 1, chi2 = scalar_max\<rparr>]"
        and t: "tips g' = tips g" by simp_all
      have wf: "wf_link (assembly_payload pl sds 0 g') (length (links g))"
        using wf_hole_link[OF inv con r sk l] .
      from glob_inv_new_link[OF inv l wf _ c] t p show ?thesis by simp
    next
      case True
      with e have l: "links g' = links g" by simp
      show ?thesis
      proof (cases "payload_step pl - skipped \<ge> min_track_candidates_per_track cfg")
        case False
        with e True have "tips g' = tips g" by simp
        with glob_inv_counters[OF inv l] c p show ?thesis by simp
      next
        case tip: True
        with e True have nz: "payload_step pl > 0" and t: "tips g' = tips g @ [prev]" by simp_all
        from nz have "payload_step pl \<noteq> 0" by auto
        with r have "unat prev < length ls0" by (simp add: parent_ok_def)
        moreover from inv have "length ls0 \<le> length (links g)"
          "list_all (\<lambda>t. unat t < length (links g)) (tips g)"
          "take (length ls0) (links g) = ls0" "wf_links (assembly_payload pl sds 0 g)"
          "length (n_tracks_per_seed g) = length sds"
          by (simp_all add: glob_inv_def)
        ultimately have "glob_inv pl ls0 sds g'"
          using l t c wf_links_same[of pl sds 0 g g' 0] by (simp add: glob_inv_def)
        with p show ?thesis by simp
      qed
    qed
  next
    case Init_shared
    then show ?thesis using step inv by (auto simp: thread_step_def dest!: init_shared_frame)
  next
    case Find_range
    then show ?thesis using step inv by (auto simp: thread_step_def dest!: find_range_frame)
  next
    case Vote
    then show ?thesis using step inv by (auto simp: thread_step_def dest!: vote_frame)
  next
    case Enqueue_cond
    then show ?thesis using step inv by (auto simp: thread_step_def split: if_splits dest!: enqueue_cond_frame)
  next
    case Enqueue_seed
    then show ?thesis using step inv by (auto simp: thread_step_def dest!: enqueue_seed_frame)
  next
    case Enqueue_push
    then show ?thesis using step inv by (auto simp: thread_step_def dest!: enqueue_push_frame)
  next
    case (Saturated owner)
    then show ?thesis using step inv by (auto simp: thread_step_def dest!: saturated_Inr)
  next
    case Compact
    then show ?thesis using step inv by (auto simp: thread_step_def dest!: compact_frame)
  qed (use step inv in \<open>auto simp: thread_step_def\<close>)
qed

lemma regs_ok_after_barrier [simp]:
  "regs_ok cfg pl ls0 n (after_barrier any p) = regs_ok cfg pl ls0 n p"
  by (cases p) auto

lemma regs_ok_open_barrier:
  assumes "list_all (\<lambda>t. regs_ok cfg pl ls0 n (pc t)) ths"
  shows "list_all (\<lambda>t. regs_ok cfg pl ls0 n (pc t)) (open_barrier B b ths)"
proof -
  have "regs_ok cfg pl ls0 n (pc (open_barrier B b ths ! i))" if "i < length ths" for i
  proof -
    from assms that have "regs_ok cfg pl ls0 n (pc (ths ! i))"
      by (simp add: list_all_length)
    with open_barrier_nth[OF that, of B b] show ?thesis by auto
  qed
  then show ?thesis by (simp add: list_all_length)
qed

lemma list_all_update:
  assumes "list_all P xs" and "P x"
  shows "list_all P (xs[i := x])"
  using assms by (auto simp: list_all_iff dest!: set_update_subset_insert[THEN subsetD])

lemma kernel_step_inv:
  assumes step: "kernel_step upd cfg pl bdim i st = Inr st'"
    and con: "payload_contract cfg pl ls0"
    and inv: "glob_inv pl ls0 sds (glob st)"
    and regs: "list_all (\<lambda>t. regs_ok cfg pl ls0 (length sds) (pc t)) (threads st)"
  shows "glob_inv pl ls0 sds (glob st')
     \<and> list_all (\<lambda>t. regs_ok cfg pl ls0 (length sds) (pc t)) (threads st')"
  using step
proof (cases rule: kernel_step_cases)
  case idle
  then show ?thesis using inv regs by simp
next
  case barrier
  then show ?thesis using inv regs_ok_open_barrier[OF regs] by simp
next
  case (thread g' sh' th')
  from regs thread(1) have "regs_ok cfg pl ls0 (length sds) (pc (threads st ! i))"
    by (simp add: list_all_length)
  from thread_step_inv[OF thread(4) con inv this] list_all_update[OF regs, of th' i]
  show ?thesis by (simp add: thread(5))
qed

lemma find_tracks_inv:
  assumes "find_tracks upd cfg pl bdim sched st = Inr st'"
    and "payload_contract cfg pl ls0"
    and "glob_inv pl ls0 sds (glob st)"
    and "list_all (\<lambda>t. regs_ok cfg pl ls0 (length sds) (pc t)) (threads st)"
  shows "glob_inv pl ls0 sds (glob st')
     \<and> list_all (\<lambda>t. regs_ok cfg pl ls0 (length sds) (pc t)) (threads st')"
  using assms(1,3,4)
proof (induction sched arbitrary: st)
  case Nil
  then show ?case by simp
next
  case (Cons i sched)
  from Cons.prems(1) obtain st1 where k: "kernel_step upd cfg pl bdim i st = Inr st1"
    and r: "find_tracks upd cfg pl bdim sched st1 = Inr st'"
    by (auto split: sum.splits)
  from kernel_step_inv[OF k assms(2) Cons.prems(2,3)] Cons.IH[OF r]
  show ?case by simp
qed

text \<open>
  A step of the search that is launched on a well-formed link table under the
  payload contract leaves a well-formed link table whose tips are indices of
  the table, under every schedule.
\<close>

lemma find_tracks_keeps_links_wf:
  assumes "find_tracks upd cfg pl bdim sched (launch g shs n) = Inr st'"
    and "payload_contract cfg pl (links g)"
    and "wf_links (assembly_payload pl sds cap g)"
    and "list_all (\<lambda>t. unat t < length (links g)) (tips g)"
    and "length (n_tracks_per_seed g) = length sds"
  shows "wf_links (assembly_payload pl sds cap (glob st'))
     \<and> list_all (\<lambda>t. unat t < length (links (glob st'))) (tips (glob st'))
     \<and> take (length (links g)) (links (glob st')) = links g
     \<and> length (n_tracks_per_seed (glob st')) = length sds"
proof -
  have i: "glob_inv pl (links g) sds (glob (launch g shs n))"
    using assms(3,4,5) wf_links_same[OF assms(3) refl, of 0] by (simp add: glob_inv_def launch_def)
  have r: "list_all (\<lambda>t. regs_ok cfg pl (links g) (length sds) (pc t)) (threads (launch g shs n))"
    by (simp add: launch_def launch_thread_def list_all_iff)
  from find_tracks_inv[OF assms(1,2) i r]
  have "glob_inv pl (links g) sds (glob st')" by simp
  then show ?thesis
    using wf_links_same[of pl sds 0 "glob st'" "glob st'" cap] by (simp add: glob_inv_def)
qed

text \<open>At the start of the search there is no link and no tip.\<close>

lemma search_start_wf:
  assumes "links g = []" and "length (measurements_view pl) < 2 ^ 32"
  shows "wf_links (assembly_payload pl sds cap g)"
  using assms by (simp add: wf_links_def)


section \<open>The binary search of step 1\<close>

lemma lower_bound_n_first:
  assumes "sorted xs" and "start \<le> n" and "n \<le> length xs"
    and "\<forall>i < start. xs ! i < v" and "\<forall>i. n \<le> i \<and> i < length xs \<longrightarrow> \<not> xs ! i < v"
  shows "start \<le> lower_bound_n xs start n v \<and> lower_bound_n xs start n v \<le> n
     \<and> (\<forall>i < lower_bound_n xs start n v. xs ! i < v)
     \<and> (\<forall>i. lower_bound_n xs start n v \<le> i \<and> i < length xs \<longrightarrow> \<not> xs ! i < v)"
  using assms
proof (induction xs start n v rule: lower_bound_n.induct)
  case (1 xs start n v)
  show ?case
  proof (cases "start < n")
    case False
    then have "lower_bound_n xs start n v = start" by simp
    moreover from False "1.prems"(2) have "start = n" by simp
    ultimately show ?thesis using "1.prems" by simp
  next
    case True
    let ?i = "(start + n) div 2"
    have i: "start \<le> ?i" "?i < n" using True by auto
    show ?thesis
    proof (cases "xs ! ?i < v")
      case A: True
      have below: "\<forall>j < ?i + 1. xs ! j < v"
      proof (intro allI impI)
        fix j assume "j < ?i + 1"
        then have "j \<le> ?i" by simp
        then have "xs ! j \<le> xs ! ?i"
          using "1.prems"(1,3) i by (auto intro!: sorted_nth_mono)
        with A show "xs ! j < v" by simp
      qed
      have eq: "lower_bound_n xs start n v = lower_bound_n xs (?i + 1) n v"
        using True A by (subst lower_bound_n.simps) (simp add: Let_def)
      from "1.IH"(1)[OF True refl A "1.prems"(1) _ "1.prems"(3) below "1.prems"(5)] i
      show ?thesis unfolding eq by simp
    next
      case B: False
      have above: "\<forall>j. ?i \<le> j \<and> j < length xs \<longrightarrow> \<not> xs ! j < v"
      proof (intro allI impI)
        fix j assume "?i \<le> j \<and> j < length xs"
        then have "xs ! ?i \<le> xs ! j"
          using "1.prems"(1) by (auto intro!: sorted_nth_mono)
        with B show "\<not> xs ! j < v" by simp
      qed
      have eq: "lower_bound_n xs start n v = lower_bound_n xs start ?i v"
        using True B by (subst lower_bound_n.simps) (simp add: Let_def)
      have "?i \<le> length xs" using i "1.prems"(3) by simp
      from "1.IH"(2)[OF True refl B "1.prems"(1) i(1) this "1.prems"(4) above] i
      show ?thesis unfolding eq by simp
    qed
  qed
qed

text \<open>
  On sorted barcodes the binary search returns the first position whose barcode
  is not less than the searched one (the number of barcodes if there is none).
\<close>

lemma lower_bound_first:
  assumes "sorted xs"
  shows "lower_bound xs v \<le> length xs \<and> (\<forall>i < lower_bound xs v. xs ! i < v)
     \<and> (\<forall>i. lower_bound xs v \<le> i \<and> i < length xs \<longrightarrow> v \<le> xs ! i)"
proof -
  have "\<forall>i. length xs \<le> i \<and> i < length xs \<longrightarrow> \<not> xs ! i < v" by auto
  from lower_bound_n_first[OF assms _ _ _ this, of 0]
  show ?thesis by (simp add: lower_bound_def not_less del: lower_bound_n.simps)
qed

lemma sorted_filter_index:
  fixes ys :: "barcode list"
  assumes "sorted ys" and "j < length ys" and "\<And>a b. a \<le> b \<Longrightarrow> P b \<Longrightarrow> P a"
  shows "j < length (filter P ys) \<longleftrightarrow> P (ys ! j)"
  using assms(1,2)
proof (induction ys arbitrary: j)
  case Nil
  then show ?case by simp
next
  case (Cons y ys)
  show ?case
  proof (cases "P y")
    case True
    then show ?thesis using Cons by (cases j) auto
  next
    case False
    have n: "\<not> P z" if "z \<in> set (y # ys)" for z
      using that Cons.prems(1) False assms(3)[of y z] by auto
    have "(y # ys) ! j \<in> set (y # ys)" using Cons.prems(2) by (intro nth_mem)
    then have "\<not> P ((y # ys) ! j)" by (rule n)
    moreover have "filter P (y # ys) = []" using n by (simp add: filter_empty_conv)
    ultimately show ?thesis by simp
  qed
qed

lemma lower_bound_present:
  assumes "sorted xs" and "distinct xs" and "k < length xs"
  shows "lower_bound xs (xs ! k) = k"
proof -
  let ?l = "lower_bound xs (xs ! k)"
  from lower_bound_first[OF assms(1), of "xs ! k"]
  have a: "?l \<le> length xs" "\<forall>i < ?l. xs ! i < xs ! k" "\<forall>i. ?l \<le> i \<and> i < length xs \<longrightarrow> xs ! k \<le> xs ! i"
    by blast+
  have lk: "?l \<le> k" using a(2) by (meson not_less order_less_irrefl)
  then have "xs ! ?l \<le> xs ! k" using assms(1,3) by (auto intro!: sorted_nth_mono)
  moreover have "xs ! k \<le> xs ! ?l" using a(3) lk assms(3) by simp
  ultimately have "xs ! ?l = xs ! k" by simp
  then show ?thesis using assms(2,3) lk by (simp add: nth_eq_iff_index_eq)
qed

lemma strict_barcodes:
  assumes "sorted xs" and "distinct xs" and "m < length xs" and "k < length xs"
  shows "xs ! m < xs ! k \<longleftrightarrow> m < k" and "xs ! m \<le> xs ! k \<longleftrightarrow> m \<le> k"
proof -
  have s: "sorted_wrt (<) xs" using assms(1,2) by (simp add: strict_sorted_iff)
  have lt: "xs ! a < xs ! b" if "a < b" "b < length xs" for a b
    using s that by (simp add: sorted_wrt_iff_nth_less)
  show "xs ! m < xs ! k \<longleftrightarrow> m < k"
    using lt[of m k] lt[of k m] assms(3,4) by (metis not_less_iff_gr_or_eq)
  show "xs ! m \<le> xs ! k \<longleftrightarrow> m \<le> k"
    using lt[of m k] lt[of k m] assms(3,4) by (metis le_less_linear not_le order.order_iff_strict)
qed

lemma length_filter_mono:
  assumes "\<And>x. x \<in> set xs \<Longrightarrow> P x \<Longrightarrow> Q x"
  shows "length (filter P xs) \<le> length (filter Q xs)"
  using assms by (induction xs) auto

lemma unat_index:
  assumes "k < 2 ^ 32"
  shows "unat (of_nat k :: u32) = k"
  using assms by (intro of_nat_inverse[OF refl]) simp

lemma find_meas_range_found:
  assumes "slot < n_in_params pl" and "at_vec (in_params_liveness_view pl) slot = Inr live" and "live > 0"
    and "at_vec (in_params_view pl) slot = Inr par"
    and "lower_bound (barcodes_view pl) (surface_link par) = lo" and "lo \<noteq> length (barcodes_view pl)"
    and "(if lo = 0 then Inr 0 else at_vec (upper_bounds_view pl) (of_nat (lo - 1))) = Inr init"
    and "at_vec (upper_bounds_view pl) (of_nat lo) = Inr u"
  shows "find_meas_range pl slot = Inr (init, u - init)"
  using assms by (auto simp: find_meas_range_def Let_def split: if_splits)

text \<open>
  For a parameter set whose surface has measurements, the range of step 1 holds
  exactly the measurements of that surface.
\<close>

lemma find_meas_range_present_surface:
  assumes ok: "measurement_index_ok pl"
    and slot: "slot < n_in_params pl" "at_vec (in_params_liveness_view pl) slot = Inr live" "live > 0"
      "at_vec (in_params_view pl) slot = Inr par"
    and k: "k < length (barcodes_view pl)" "surface_link par = barcodes_view pl ! k"
  shows "\<exists>init num. find_meas_range pl slot = Inr (init, num)
     \<and> (\<forall>j < length (measurements_view pl).
          (unat init \<le> j \<and> j < unat init + unat num)
          \<longleftrightarrow> meas_surface_link (measurements_view pl ! j) = surface_link par)"
proof -
  let ?bs = "barcodes_view pl" and ?ub = "upper_bounds_view pl" and ?ms = "measurements_view pl"
  let ?bcd = "?bs ! k"
  let ?ys = "map meas_surface_link ?ms"
  from ok have s: "sorted ?bs" and d: "distinct ?bs" and lu: "length ?ub = length ?bs"
    and small: "length ?bs < 2 ^ 32" and sy: "sorted ?ys" and sub: "set ?ys \<subseteq> set ?bs"
    and cnt: "\<forall>i < length ?bs. unat (?ub ! i) = length (filter (\<lambda>m. meas_surface_link m \<le> ?bs ! i) ?ms)"
    by (simp_all add: measurement_index_ok_def list_all_iff)
  define a where "a = length (filter (\<lambda>m. meas_surface_link m < ?bcd) ?ms)"
  define b where "b = length (filter (\<lambda>m. meas_surface_link m \<le> ?bcd) ?ms)"
  define init where "init = (if k = 0 then 0 else ?ub ! (k - 1))"
  have lb: "lower_bound ?bs (surface_link par) = k"
    using lower_bound_present[OF s d k(1)] k(2) by simp
  have uk: "unat (of_nat k :: u32) = k" "unat (of_nat (k - 1) :: u32) = k - 1"
    using k(1) small by (simp_all add: unat_index)
  have av1: "at_vec ?ub (of_nat k) = Inr (?ub ! k)"
    unfolding at_vec_def uk using k(1) lu by simp
  have "at_vec ?ub (of_nat (k - 1)) = Inr (?ub ! (k - 1))"
    unfolding at_vec_def uk using k(1) lu by simp
  then have av0: "(if k = 0 then Inr 0 else at_vec ?ub (of_nat (k - 1))) = Inr init"
    unfolding init_def by (simp only: if_distrib[of Inr] split: if_splits)
  have "k \<noteq> length ?bs" using k(1) by simp
  from find_meas_range_found[OF slot lb this av0 av1]
  have fm: "find_meas_range pl slot = Inr (init, ?ub ! k - init)" .
  have ubk: "unat (?ub ! k) = b" using cnt k(1) by (simp add: b_def)
  have below: "meas_surface_link m < ?bcd \<longleftrightarrow> (k \<noteq> 0 \<and> meas_surface_link m \<le> ?bs ! (k - 1))"
    if "m \<in> set ?ms" for m
  proof -
    from that sub have "meas_surface_link m \<in> set ?bs" by auto
    then obtain i where i: "i < length ?bs" "?bs ! i = meas_surface_link m"
      by (auto simp: in_set_conv_nth)
    show ?thesis
    proof (cases "k = 0")
      case True
      then show ?thesis using strict_barcodes(1)[OF s d i(1) k(1)] i(2) by simp
    next
      case False
      then have "k - 1 < length ?bs" using k(1) by simp
      from strict_barcodes(1)[OF s d i(1) k(1)] strict_barcodes(2)[OF s d i(1) this] i(2) False
      show ?thesis by auto
    qed
  qed
  have ia: "unat init = a"
  proof (cases "k = 0")
    case True
    then have "filter (\<lambda>m. meas_surface_link m < ?bcd) ?ms = []"
      using below by (simp add: filter_empty_conv)
    then show ?thesis using True by (simp add: init_def a_def)
  next
    case False
    then have "k - 1 < length ?bs" using k(1) by simp
    then have "unat (?ub ! (k - 1)) = length (filter (\<lambda>m. meas_surface_link m \<le> ?bs ! (k - 1)) ?ms)"
      using cnt by simp
    also have "\<dots> = a"
      unfolding a_def using below False by (intro arg_cong[where f = length] filter_cong) auto
    finally show ?thesis using False by (simp add: init_def)
  qed
  have ab: "a \<le> b" unfolding a_def b_def by (rule length_filter_mono) simp
  then have "init \<le> ?ub ! k" using ia ubk by (simp add: word_le_nat_alt)
  then have num: "unat (?ub ! k - init) = b - a" using ia ubk by (simp add: unat_sub)
  have idx: "(a \<le> j \<and> j < a + (b - a)) \<longleftrightarrow> meas_surface_link (?ms ! j) = ?bcd"
    if j: "j < length ?ms" for j
  proof -
    have ja: "j < a \<longleftrightarrow> ?ys ! j < ?bcd"
      using sorted_filter_index[OF sy, of j "\<lambda>y. y < ?bcd"] j
      by (simp add: a_def filter_map comp_def)
    have jb: "j < b \<longleftrightarrow> ?ys ! j \<le> ?bcd"
      using sorted_filter_index[OF sy, of j "\<lambda>y. y \<le> ?bcd"] j
      by (simp add: b_def filter_map comp_def)
    show ?thesis using ja jb ab j by auto
  qed
  show ?thesis
    using fm ia num idx k(2) by (intro exI[of _ init] exI[of _ "?ub ! k - init"]) simp
qed

text \<open>
  For a parameter set whose barcode is greater than every barcode of the index,
  the range of step 1 is empty.
\<close>

lemma find_meas_range_beyond:
  assumes "sorted (barcodes_view pl)"
    and "slot < n_in_params pl" and "at_vec (in_params_liveness_view pl) slot = Inr live" and "live > 0"
    and "at_vec (in_params_view pl) slot = Inr par"
    and "\<forall>b \<in> set (barcodes_view pl). b < surface_link par"
  shows "find_meas_range pl slot = Inr (0, 0)"
proof -
  let ?l = "lower_bound (barcodes_view pl) (surface_link par)"
  from lower_bound_first[OF assms(1), of "surface_link par"]
  have a: "?l \<le> length (barcodes_view pl)"
    "\<forall>i. ?l \<le> i \<and> i < length (barcodes_view pl) \<longrightarrow> surface_link par \<le> barcodes_view pl ! i"
    by blast+
  have "?l = length (barcodes_view pl)"
  proof (rule ccontr)
    assume "?l \<noteq> length (barcodes_view pl)"
    with a(1) have lt: "?l < length (barcodes_view pl)" by simp
    with a(2) have "surface_link par \<le> barcodes_view pl ! ?l" by simp
    moreover from lt assms(6) have "barcodes_view pl ! ?l < surface_link par" by simp
    ultimately show False by simp
  qed
  then show ?thesis using assms(2-5) by (simp add: find_meas_range_def Let_def)
qed

section \<open>The way of an accepted measurement to its link\<close>

lemma process_load_accepts:
  assumes "process_load upd cfg pl tid (g, sh, th) = Inr (g', sh', th')"
    and "pc th' = Count_candidate owner prev seed meas_i trk"
  shows "\<exists>in_par meas. upd in_par meas = (SUCCESS, trk) \<and> filtered_chi2 trk < chi2_max cfg"
  using assms
  by (auto simp: process_load_def Let_def split: sum.splits if_splits prod.splits) blast+

lemma thread_step_pipeline:
  assumes "thread_step upd cfg pl tid (g, sh, th) = Inr (g', sh', th')"
  shows "(pc th' = Append_link prev seed meas_i trk \<longrightarrow>
            pc th = Reserve_branch prev seed meas_i trk
            \<and> n_tracks_per_seed g ! unat seed < max_num_branches_per_seed cfg)
     \<and> (pc th' = Reserve_branch prev seed meas_i trk \<longrightarrow>
            (\<exists>owner. pc th = Count_candidate owner prev seed meas_i trk))
     \<and> (pc th' = Count_candidate owner prev seed meas_i trk \<longrightarrow>
            pc th = Process_load
            \<and> (\<exists>in_par meas. upd in_par meas = (SUCCESS, trk) \<and> filtered_chi2 trk < chi2_max cfg))"
proof (cases "pc th")
  case Init_shared then show ?thesis using assms by (auto simp: thread_step_def dest!: init_shared_frame)
next
  case Find_range then show ?thesis using assms by (auto simp: thread_step_def dest!: find_range_frame)
next
  case Vote then show ?thesis using assms by (auto simp: thread_step_def dest!: vote_frame)
next
  case Enqueue_cond then show ?thesis using assms by (auto simp: thread_step_def split: if_splits dest!: enqueue_cond_frame)
next
  case Enqueue_seed then show ?thesis using assms by (auto simp: thread_step_def dest!: enqueue_seed_frame)
next
  case Enqueue_push then show ?thesis using assms by (auto simp: thread_step_def dest!: enqueue_push_frame)
next
  case Process_load
  then have p: "process_load upd cfg pl tid (g, sh, th) = Inr (g', sh', th')"
    using assms by (simp add: thread_step_def)
  from process_load_frame[OF p] process_load_accepts[OF p] Process_load
  show ?thesis by auto
next
  case (Saturated x) then show ?thesis using assms by (auto simp: thread_step_def dest!: saturated_Inr)
next
  case (Count_candidate x1 x2 x3 x4 x5) then show ?thesis using assms by (auto simp: thread_step_def dest!: count_candidate_Inr)
next
  case (Reserve_branch x1 x2 x3 x4)
  then show ?thesis using assms by (auto simp: thread_step_def split: if_splits dest!: reserve_branch_Inr)
next
  case (Append_link x1 x2 x3 x4) then show ?thesis using assms by (auto simp: thread_step_def dest!: append_link_Inr)
next
  case Compact then show ?thesis using assms by (auto simp: thread_step_def dest!: compact_frame)
next
  case Hole_check then show ?thesis using assms by (auto simp: thread_step_def dest!: hole_check_frame)
next
  case (Hole_reserve x1 x2) then show ?thesis using assms by (auto simp: thread_step_def split: if_splits dest!: hole_reserve_Inr)
next
  case (Hole_commit x1 x2) then show ?thesis using assms by (auto simp: thread_step_def dest!: hole_commit_Inr)
qed (use assms in \<open>auto simp: thread_step_def\<close>)

lemma thread_step_new_link:
  assumes "thread_step upd cfg pl tid (g, sh, th) = Inr (g', sh', th')" and "links g' \<noteq> links g"
  shows "\<exists>l. links g' = links g @ [l]
     \<and> ((\<exists>prev seed trk. pc th = Append_link prev seed (meas_idx l) trk)
        \<or> (meas_idx l = hole_meas_idx \<and> (\<exists>prev seed. pc th = Hole_commit prev seed)))"
proof (cases "touches_glob (pc th)")
  case False
  then show ?thesis using thread_step_quiet[OF assms(1)] assms(2) by simp
next
  case True
  then show ?thesis using assms
    by (cases "pc th")
      (auto simp: thread_step_def split: if_splits
        dest!: reserve_branch_Inr hole_reserve_Inr append_link_Inr hole_commit_Inr)
qed

lemma append_link_appends:
  assumes "0 \<le> filtered_chi2 trk" and "parent_n_skipped pl g prev = Inr skipped"
    and "length (links g) < unat (links_capacity pl)"
    and "pos = unat ((of_nat (length (links g)) :: u32) - curr_links_idx pl)"
    and "pos < length (out_params g)" and "pos < length (out_params_liveness g)"
    and "length (tips g) < unat (tips_capacity pl)"
  shows "append_link cfg pl prev seed meas_i trk (g, sh, th)
           = Inr (g\<lparr>links := links g @ [\<lparr>step = payload_step pl, previous_candidate_idx = prev,
                                        meas_idx = meas_i, seed_idx = seed, n_skipped = skipped,
                                        chi2 = filtered_chi2 trk\<rparr>],
                    out_params := (out_params g)[pos := filtered trk],
                    out_params_liveness := (out_params_liveness g)[pos := (if last_step cfg pl then 0 else 1)],
                    tips := (if last_step cfg pl
                                \<and> payload_step pl + 1 - skipped \<ge> min_track_candidates_per_track cfg
                             then tips g @ [of_nat (length (links g))] else tips g)\<rparr>,
                  sh, th\<lparr>pc := Barrier_processed\<rparr>)"
  using assms
  by (simp add: append_link_def emplace_link_def push_back_vec_def set_vec_def Let_def not_less)

section \<open>The claims\<close>

text \<open>
  C7 (the code differs).  Step 1 takes the position of the first barcode that is not
  less than the barcode of the parameter's surface and never compares the barcode
  found with the one searched.  For a surface without measurements whose barcode
  is smaller than some barcode with measurements, the range is the range of
  that other surface: here the parameter set on surface 3 gets the two
  measurements of surface 5, where the claim promises an empty range.
\<close>

theorem find_meas_range_absent_surface:
  "find_meas_range absent_surface_payload 0 = Inr (0, 2)
   \<and> map meas_surface_link (measurements_view absent_surface_payload) = [5, 5]
   \<and> map surface_link (in_params_view absent_surface_payload) = [3]"
  by (simp add: find_meas_range_def absent_surface_payload_def at_vec_def lower_bound_def)

text \<open>
  C6 (the code differs).  At step 0 the tip-recording site of the hole inserter is
  reached whenever the branch ends there (no hole allowed, or the last step)
  and the minimal length is 0: the assertion \<open>step > 0\<close> of line 333 fails.
\<close>

theorem hole_commit_step0_assert:
  assumes "payload_step pl = 0"
    and "max_num_skipping_per_cand cfg = 0 \<or> last_step cfg pl"
    and "min_track_candidates_per_track cfg = 0"
  shows "hole_commit cfg pl tid prev seed (g, sh, th) = Inl Assertion_failed"
  using assms by (auto simp: hole_commit_def parent_n_skipped_def)

theorem hole_commit_step0_assert_witness:
  "payload_step race_payload = 0
   \<and> max_num_skipping_per_cand (race_cfg\<lparr>max_num_skipping_per_cand := 0, min_track_candidates_per_track := 0\<rparr>) = 0
   \<and> min_track_candidates_per_track (race_cfg\<lparr>max_num_skipping_per_cand := 0, min_track_candidates_per_track := 0\<rparr>) = 0
   \<and> hole_commit (race_cfg\<lparr>max_num_skipping_per_cand := 0, min_track_candidates_per_track := 0\<rparr>) race_payload
        \<lparr>getLocalThreadIdX = 0, getBlockIdX = 0, getBlockDimX = 2\<rparr> 0 0
        (race_glob, race_shared, launch_thread\<lparr>pc := Hole_commit 0 0\<rparr>) = Inl Assertion_failed"
  using hole_commit_step0_assert
    [of race_payload "race_cfg\<lparr>max_num_skipping_per_cand := 0, min_track_candidates_per_track := 0\<rparr>"
        "\<lparr>getLocalThreadIdX = 0, getBlockIdX = 0, getBlockDimX = 2\<rparr>" 0 0 race_glob race_shared
        "launch_thread\<lparr>pc := Hole_commit 0 0\<rparr>"]
  by (simp add: race_payload_def race_cfg_def)

text \<open>
  C4.  A thread takes a pair \<open>(meas_i, owner)\<close> from the shared buffer, and the
  seed of the owner is not saturated when the thread loads its counter.  Then
  the load step runs the Kalman update and leaves the global and the shared
  state as they are; the thread goes on towards a new link exactly when the
  update succeeded with a chi-square below \<open>chi2_max\<close>, and otherwise (a failed
  update and a chi-square that is too large alike) goes straight to the
  barrier, without a fault.  On the way to the link the candidate is counted
  and the seed's counter is incremented, and the thread goes on to the
  appending step exactly when the counter's old value was below the maximum.
  The appending step appends the link of the measurement, with the step, the
  parent, the seed, the holes of the parent and the chi-square of the update,
  provided that the chi-square is not negative, which line 256 asserts of the
  update, and that the containers have room for the link.  Conversely, a
  thread gets to each of these steps only from the step before it, with the
  same measurement and track state, and to the first of them only from an
  update that succeeded with a chi-square below \<open>chi2_max\<close>; the only other
  step that appends a link is that of the hole inserter, whose link carries
  the hole sentinel.  In the runs of \<open>round_robin\<close> on the two measurements of
  one seed, an update that always fails and an update whose chi-square is
  always \<open>chi2_max\<close> return the same state, with a hole link and no measurement
  link; an update that always succeeds returns one measurement link, the
  maximum being one branch.
\<close>

theorem measurement_link_iff_update_accepted:
  assumes "getLocalThreadIdX tid < shared_candidates_size sh"
    and "at_vec (shared_candidates sh) (getLocalThreadIdX tid) = Inr (meas_i, owner)"
    and "og = owner + getBlockDimX tid * getBlockIdX tid"
    and "at_vec (in_params_liveness_view pl) og = Inr live" and "live \<noteq> 0"
    and "slot_seed pl g og = Inr seed"
    and "at_vec (in_params_view pl) og = Inr in_par"
    and "at_vec (measurements_view pl) meas_i = Inr meas"
    and "at_vec (n_tracks_per_seed g) seed = Inr n"
    and "n < max_num_branches_per_seed cfg"
    and "upd in_par meas = (res, trk)"
    and "prev = prev_links_idx pl + og"
  shows "process_load upd cfg pl tid (g, sh, th) =
           Inr (g, sh, th\<lparr>pc := (if res = SUCCESS \<and> filtered_chi2 trk < chi2_max cfg
                                   then Count_candidate owner prev seed meas_i trk
                                   else Barrier_processed)\<rparr>)
    \<and> (\<forall>g2 sh2 th2. unat owner < length (shared_num_candidates sh2) \<longrightarrow>
          count_candidate owner prev seed meas_i trk (g2, sh2, th2) =
            Inr (g2,
                 sh2\<lparr>shared_num_candidates :=
                       (shared_num_candidates sh2)[unat owner := shared_num_candidates sh2 ! unat owner + 1]\<rparr>,
                 th2\<lparr>pc := Reserve_branch prev seed meas_i trk\<rparr>))
    \<and> (\<forall>g3 sh3 th3. unat seed < length (n_tracks_per_seed g3) \<longrightarrow>
          reserve_branch cfg prev seed meas_i trk (g3, sh3, th3) =
            Inr (g3\<lparr>n_tracks_per_seed :=
                      (n_tracks_per_seed g3)[unat seed := n_tracks_per_seed g3 ! unat seed + 1]\<rparr>,
                 sh3,
                 th3\<lparr>pc := (if n_tracks_per_seed g3 ! unat seed < max_num_branches_per_seed cfg
                             then Append_link prev seed meas_i trk else Barrier_processed)\<rparr>))
    \<and> (\<forall>g4 sh4 th4 skipped pos.
          0 \<le> filtered_chi2 trk \<and> parent_n_skipped pl g4 prev = Inr skipped
          \<and> length (links g4) < unat (links_capacity pl)
          \<and> pos = unat ((of_nat (length (links g4)) :: u32) - curr_links_idx pl)
          \<and> pos < length (out_params g4) \<and> pos < length (out_params_liveness g4)
          \<and> length (tips g4) < unat (tips_capacity pl) \<longrightarrow>
          append_link cfg pl prev seed meas_i trk (g4, sh4, th4) =
            Inr (g4\<lparr>links := links g4 @ [\<lparr>step = payload_step pl, previous_candidate_idx = prev,
                                           meas_idx = meas_i, seed_idx = seed, n_skipped = skipped,
                                           chi2 = filtered_chi2 trk\<rparr>],
                     out_params := (out_params g4)[pos := filtered trk],
                     out_params_liveness :=
                       (out_params_liveness g4)[pos := (if last_step cfg pl then 0 else 1)],
                     tips := (if last_step cfg pl
                                 \<and> payload_step pl + 1 - skipped \<ge> min_track_candidates_per_track cfg
                              then tips g4 @ [of_nat (length (links g4))] else tips g4)\<rparr>,
                 sh4, th4\<lparr>pc := Barrier_processed\<rparr>))
    \<and> (\<forall>upd2 tid2 g5 sh5 th5 g6 sh6 th6.
          thread_step upd2 cfg pl tid2 (g5, sh5, th5) = Inr (g6, sh6, th6) \<longrightarrow>
            (\<forall>p s m t. pc th6 = Append_link p s m t \<longrightarrow>
                pc th5 = Reserve_branch p s m t
                \<and> n_tracks_per_seed g5 ! unat s < max_num_branches_per_seed cfg)
            \<and> (\<forall>p s m t. pc th6 = Reserve_branch p s m t \<longrightarrow>
                (\<exists>ow. pc th5 = Count_candidate ow p s m t))
            \<and> (\<forall>ow p s m t. pc th6 = Count_candidate ow p s m t \<longrightarrow>
                pc th5 = Process_load
                \<and> (\<exists>in_par2 meas2. upd2 in_par2 meas2 = (SUCCESS, t) \<and> filtered_chi2 t < chi2_max cfg))
            \<and> (links g6 \<noteq> links g5 \<longrightarrow>
                (\<exists>l. links g6 = links g5 @ [l]
                   \<and> ((\<exists>p s t. pc th5 = Append_link p s (meas_idx l) t)
                      \<or> (meas_idx l = hole_meas_idx \<and> (\<exists>p s. pc th5 = Hole_commit p s))))))
    \<and> (\<exists>st. find_tracks fail_all race_cfg race_payload 2 round_robin (launch race_glob [race_shared] 2) = Inr st
          \<and> find_tracks exceed_all race_cfg race_payload 2 round_robin (launch race_glob [race_shared] 2) = Inr st
          \<and> returned st \<and> map meas_idx (links (glob st)) = [hole_meas_idx])
    \<and> (\<exists>st. find_tracks accept_all race_cfg race_payload 2 round_robin (launch race_glob [race_shared] 2) = Inr st
          \<and> returned st \<and> map meas_idx (links (glob st)) = [0] \<and> n_tracks_per_seed (glob st) = [2])"
proof (intro conjI allI impI)
  show "process_load upd cfg pl tid (g, sh, th) =
           Inr (g, sh, th\<lparr>pc := (if res = SUCCESS \<and> filtered_chi2 trk < chi2_max cfg
                                   then Count_candidate owner prev seed meas_i trk
                                   else Barrier_processed)\<rparr>)"
    using assms by (simp add: process_load_def Let_def)
next
  fix g2 :: global_state and sh2 :: find_tracks_shared_payload and th2 :: thread_state
  assume "unat owner < length (shared_num_candidates sh2)"
  then show "count_candidate owner prev seed meas_i trk (g2, sh2, th2) =
            Inr (g2,
                 sh2\<lparr>shared_num_candidates :=
                       (shared_num_candidates sh2)[unat owner := shared_num_candidates sh2 ! unat owner + 1]\<rparr>,
                 th2\<lparr>pc := Reserve_branch prev seed meas_i trk\<rparr>)"
    by (simp add: count_candidate_def fetch_add_vec_def)
next
  fix g3 :: global_state and sh3 :: find_tracks_shared_payload and th3 :: thread_state
  assume "unat seed < length (n_tracks_per_seed g3)"
  then show "reserve_branch cfg prev seed meas_i trk (g3, sh3, th3) =
            Inr (g3\<lparr>n_tracks_per_seed :=
                      (n_tracks_per_seed g3)[unat seed := n_tracks_per_seed g3 ! unat seed + 1]\<rparr>,
                 sh3,
                 th3\<lparr>pc := (if n_tracks_per_seed g3 ! unat seed < max_num_branches_per_seed cfg
                             then Append_link prev seed meas_i trk else Barrier_processed)\<rparr>)"
    by (simp add: reserve_branch_def fetch_add_vec_def)
next
  fix g4 :: global_state and sh4 :: find_tracks_shared_payload and th4 :: thread_state and skipped pos
  assume "0 \<le> filtered_chi2 trk \<and> parent_n_skipped pl g4 prev = Inr skipped
          \<and> length (links g4) < unat (links_capacity pl)
          \<and> pos = unat ((of_nat (length (links g4)) :: u32) - curr_links_idx pl)
          \<and> pos < length (out_params g4) \<and> pos < length (out_params_liveness g4)
          \<and> length (tips g4) < unat (tips_capacity pl)"
  then show "append_link cfg pl prev seed meas_i trk (g4, sh4, th4) =
            Inr (g4\<lparr>links := links g4 @ [\<lparr>step = payload_step pl, previous_candidate_idx = prev,
                                           meas_idx = meas_i, seed_idx = seed, n_skipped = skipped,
                                           chi2 = filtered_chi2 trk\<rparr>],
                     out_params := (out_params g4)[pos := filtered trk],
                     out_params_liveness :=
                       (out_params_liveness g4)[pos := (if last_step cfg pl then 0 else 1)],
                     tips := (if last_step cfg pl
                                 \<and> payload_step pl + 1 - skipped \<ge> min_track_candidates_per_track cfg
                              then tips g4 @ [of_nat (length (links g4))] else tips g4)\<rparr>,
                 sh4, th4\<lparr>pc := Barrier_processed\<rparr>)"
    by (intro append_link_appends) simp_all
next
  fix upd2 tid2 and g5 :: global_state and sh5 th5 and g6 :: global_state and sh6 th6 p s m t
  assume st: "thread_step upd2 cfg pl tid2 (g5, sh5, th5) = Inr (g6, sh6, th6)"
  {
    assume "pc th6 = Append_link p s m t"
    with thread_step_pipeline[OF st, of p s m t]
    show "pc th5 = Reserve_branch p s m t" and "n_tracks_per_seed g5 ! unat s < max_num_branches_per_seed cfg"
      by simp_all
  }
  {
    assume "pc th6 = Reserve_branch p s m t"
    with thread_step_pipeline[OF st, of p s m t]
    show "\<exists>ow. pc th5 = Count_candidate ow p s m t" by simp
  }
next
  fix upd2 tid2 and g5 :: global_state and sh5 th5 and g6 :: global_state and sh6 th6 ow p s m t
  assume st: "thread_step upd2 cfg pl tid2 (g5, sh5, th5) = Inr (g6, sh6, th6)"
    and c: "pc th6 = Count_candidate ow p s m t"
  from thread_step_pipeline[OF st, of p s m t ow] c
  show "pc th5 = Process_load"
    and "\<exists>in_par2 meas2. upd2 in_par2 meas2 = (SUCCESS, t) \<and> filtered_chi2 t < chi2_max cfg"
    by simp_all
next
  fix upd2 tid2 and g5 :: global_state and sh5 th5 and g6 :: global_state and sh6 th6
  assume "thread_step upd2 cfg pl tid2 (g5, sh5, th5) = Inr (g6, sh6, th6)" and "links g6 \<noteq> links g5"
  from thread_step_new_link[OF this]
  show "\<exists>l. links g6 = links g5 @ [l]
                   \<and> ((\<exists>p s t. pc th5 = Append_link p s (meas_idx l) t)
                      \<or> (meas_idx l = hole_meas_idx \<and> (\<exists>p s. pc th5 = Hole_commit p s)))" .
next
  show "\<exists>st. find_tracks fail_all race_cfg race_payload 2 round_robin (launch race_glob [race_shared] 2) = Inr st
          \<and> find_tracks exceed_all race_cfg race_payload 2 round_robin (launch race_glob [race_shared] 2) = Inr st
          \<and> returned st \<and> map meas_idx (links (glob st)) = [hole_meas_idx]"
    by (rule rejected_runs)
next
  show "\<exists>st. find_tracks accept_all race_cfg race_payload 2 round_robin (launch race_glob [race_shared] 2) = Inr st
          \<and> returned st \<and> map meas_idx (links (glob st)) = [0] \<and> n_tracks_per_seed (glob st) = [2]"
    by (rule accepted_run)
qed

theorem measurement_link_iff_update_accepted_witness:
  "getLocalThreadIdX thread0_of_2 < shared_candidates_size race_enqueued
   \<and> at_vec (shared_candidates race_enqueued) (getLocalThreadIdX thread0_of_2) = Inr (0, 0)
   \<and> at_vec (in_params_liveness_view race_payload) 0 = Inr 1
   \<and> slot_seed race_payload race_glob 0 = Inr 0
   \<and> at_vec (n_tracks_per_seed race_glob) 0 = Inr 0
   \<and> 0 < max_num_branches_per_seed race_cfg
   \<and> process_load accept_all race_cfg race_payload thread0_of_2
        (race_glob, race_enqueued, launch_thread\<lparr>pc := Process_load\<rparr>) =
      Inr (race_glob, race_enqueued,
           launch_thread\<lparr>pc := Count_candidate 0 0 0 0
              \<lparr>filtered_chi2 = 1, filtered = \<lparr>surface_link = 7, bound_vector = []\<rparr>\<rparr>\<rparr>)
   \<and> count_candidate 0 0 0 0 \<lparr>filtered_chi2 = 1, filtered = \<lparr>surface_link = 7, bound_vector = []\<rparr>\<rparr>
        (race_glob, race_enqueued, launch_thread) =
      Inr (race_glob, race_enqueued\<lparr>shared_num_candidates := [1, 0]\<rparr>,
           launch_thread\<lparr>pc := Reserve_branch 0 0 0
              \<lparr>filtered_chi2 = 1, filtered = \<lparr>surface_link = 7, bound_vector = []\<rparr>\<rparr>\<rparr>)
   \<and> reserve_branch race_cfg 0 0 0 \<lparr>filtered_chi2 = 1, filtered = \<lparr>surface_link = 7, bound_vector = []\<rparr>\<rparr>
        (race_glob, race_enqueued, launch_thread) =
      Inr (race_glob\<lparr>n_tracks_per_seed := [1]\<rparr>, race_enqueued,
           launch_thread\<lparr>pc := Append_link 0 0 0
              \<lparr>filtered_chi2 = 1, filtered = \<lparr>surface_link = 7, bound_vector = []\<rparr>\<rparr>\<rparr>)
   \<and> append_link race_cfg race_payload 0 0 0
        \<lparr>filtered_chi2 = 1, filtered = \<lparr>surface_link = 7, bound_vector = []\<rparr>\<rparr>
        (race_glob\<lparr>n_tracks_per_seed := [1]\<rparr>, race_enqueued, launch_thread) =
      Inr (race_glob\<lparr>n_tracks_per_seed := [1],
             links := [\<lparr>step = 0, previous_candidate_idx = 0, meas_idx = 0, seed_idx = 0,
                        n_skipped = 0, chi2 = 1\<rparr>],
             out_params := [\<lparr>surface_link = 7, bound_vector = []\<rparr>, \<lparr>surface_link = 0, bound_vector = []\<rparr>],
             out_params_liveness := [1, 0]\<rparr>,
           race_enqueued, launch_thread\<lparr>pc := Barrier_processed\<rparr>)"
proof -
  let ?trk = "\<lparr>filtered_chi2 = 1, filtered = \<lparr>surface_link = 7, bound_vector = []\<rparr>\<rparr>"
  have h: "getLocalThreadIdX thread0_of_2 < shared_candidates_size race_enqueued"
    "at_vec (shared_candidates race_enqueued) (getLocalThreadIdX thread0_of_2) = Inr (0, 0)"
    "(0 :: u32) = 0 + getBlockDimX thread0_of_2 * getBlockIdX thread0_of_2"
    "at_vec (in_params_liveness_view race_payload) 0 = Inr 1" "(1 :: u32) \<noteq> 0"
    "slot_seed race_payload race_glob 0 = Inr 0"
    "at_vec (in_params_view race_payload) 0 = Inr \<lparr>surface_link = 7, bound_vector = []\<rparr>"
    "at_vec (measurements_view race_payload) 0 = Inr \<lparr>meas_surface_link = 7, meas_dim = 2, measurement_id = 0\<rparr>"
    "at_vec (n_tracks_per_seed race_glob) 0 = Inr 0"
    "0 < max_num_branches_per_seed race_cfg"
    "accept_all \<lparr>surface_link = 7, bound_vector = []\<rparr> \<lparr>meas_surface_link = 7, meas_dim = 2, measurement_id = 0\<rparr>
       = (SUCCESS, ?trk)"
    "(0 :: u32) = prev_links_idx race_payload + 0"
    by (simp_all add: thread0_of_2_def race_enqueued_def race_shared_def race_payload_def race_glob_def
        race_cfg_def accept_all_def at_vec_def slot_seed_def)
  note T = measurement_link_iff_update_accepted[where tid = thread0_of_2 and sh = race_enqueued and meas_i = 0 and owner = 0 and og = 0
       and pl = race_payload and live = 1 and g = race_glob and seed = 0
       and in_par = "\<lparr>surface_link = 7, bound_vector = []\<rparr>"
       and meas = "\<lparr>meas_surface_link = 7, meas_dim = 2, measurement_id = 0\<rparr>"
       and n = 0 and cfg = race_cfg and upd = accept_all and res = SUCCESS
       and trk = ?trk and prev = 0 and th = "launch_thread\<lparr>pc := Process_load\<rparr>", OF h]
  have 1: "process_load accept_all race_cfg race_payload thread0_of_2
        (race_glob, race_enqueued, launch_thread\<lparr>pc := Process_load\<rparr>) =
      Inr (race_glob, race_enqueued, launch_thread\<lparr>pc := Count_candidate 0 0 0 0 ?trk\<rparr>)"
    using T[THEN conjunct1] by (simp add: race_cfg_def)
  have "unat (0 :: u32) < length (shared_num_candidates race_enqueued)"
    by (simp add: race_enqueued_def race_shared_def)
  from T[THEN conjunct2, THEN conjunct1, rule_format, OF this, of race_glob launch_thread]
  have 2: "count_candidate 0 0 0 0 ?trk (race_glob, race_enqueued, launch_thread) =
      Inr (race_glob, race_enqueued\<lparr>shared_num_candidates := [1, 0]\<rparr>,
           launch_thread\<lparr>pc := Reserve_branch 0 0 0 ?trk\<rparr>)"
    by (simp add: race_enqueued_def race_shared_def)
  have "unat (0 :: u32) < length (n_tracks_per_seed race_glob)"
    by (simp add: race_glob_def)
  from T[THEN conjunct2, THEN conjunct2, THEN conjunct1, rule_format, OF this, of race_enqueued launch_thread]
  have 3: "reserve_branch race_cfg 0 0 0 ?trk (race_glob, race_enqueued, launch_thread) =
      Inr (race_glob\<lparr>n_tracks_per_seed := [1]\<rparr>, race_enqueued,
           launch_thread\<lparr>pc := Append_link 0 0 0 ?trk\<rparr>)"
    by (simp add: race_glob_def race_cfg_def)
  have "0 \<le> filtered_chi2 ?trk \<and> parent_n_skipped race_payload (race_glob\<lparr>n_tracks_per_seed := [1]\<rparr>) 0 = Inr 0
          \<and> length (links (race_glob\<lparr>n_tracks_per_seed := [1]\<rparr>)) < unat (links_capacity race_payload)
          \<and> (0 :: nat) = unat ((of_nat (length (links (race_glob\<lparr>n_tracks_per_seed := [1]\<rparr>))) :: u32)
                - curr_links_idx race_payload)
          \<and> 0 < length (out_params (race_glob\<lparr>n_tracks_per_seed := [1]\<rparr>))
          \<and> 0 < length (out_params_liveness (race_glob\<lparr>n_tracks_per_seed := [1]\<rparr>))
          \<and> length (tips (race_glob\<lparr>n_tracks_per_seed := [1]\<rparr>)) < unat (tips_capacity race_payload)"
    by (simp add: parent_n_skipped_def race_payload_def race_glob_def)
  from T[THEN conjunct2, THEN conjunct2, THEN conjunct2, THEN conjunct1, rule_format, OF this,
      of race_enqueued launch_thread]
  have 4: "append_link race_cfg race_payload 0 0 0 ?trk
        (race_glob\<lparr>n_tracks_per_seed := [1]\<rparr>, race_enqueued, launch_thread) =
      Inr (race_glob\<lparr>n_tracks_per_seed := [1],
             links := [\<lparr>step = 0, previous_candidate_idx = 0, meas_idx = 0, seed_idx = 0,
                        n_skipped = 0, chi2 = 1\<rparr>],
             out_params := [\<lparr>surface_link = 7, bound_vector = []\<rparr>, \<lparr>surface_link = 0, bound_vector = []\<rparr>],
             out_params_liveness := [1, 0]\<rparr>,
           race_enqueued, launch_thread\<lparr>pc := Barrier_processed\<rparr>)"
    by (simp add: race_glob_def race_cfg_def race_payload_def last_step_def numeral_2_eq_2)
  from h(1,2,4,6,9,10) 1 2 3 4 show ?thesis by (intro conjI)
qed

text \<open>
  C1 (corrected).  The claim says that a pair whose seed is saturated marks its
  owner as without accepted children, so that the owner gets a hole.  The
  code does the opposite (line 241, ``the seed is already exhausted, avoid
  adding hole''): the Kalman update is not run, whatever update function is
  given, and the owner's candidate counter is incremented as for an accepted
  candidate; a thread whose candidate counter is not zero leaves the hole
  inserter without any effect.
\<close>

theorem saturated_pair_is_counted:
  assumes "getLocalThreadIdX tid < shared_candidates_size sh"
    and "at_vec (shared_candidates sh) (getLocalThreadIdX tid) = Inr (meas_i, owner)"
    and "og = owner + getBlockDimX tid * getBlockIdX tid"
    and "at_vec (in_params_liveness_view pl) og = Inr live" and "live \<noteq> 0"
    and "slot_seed pl g og = Inr seed"
    and "at_vec (in_params_view pl) og = Inr in_par"
    and "at_vec (measurements_view pl) meas_i = Inr meas"
    and "at_vec (n_tracks_per_seed g) seed = Inr n"
    and "n \<ge> max_num_branches_per_seed cfg"
  shows "(\<forall>upd. process_load upd cfg pl tid (g, sh, th) = Inr (g, sh, th\<lparr>pc := Saturated owner\<rparr>))
    \<and> (\<forall>g2 sh2 th2 v. saturated owner (g2, sh2, th2) = Inr v \<longrightarrow>
          v = (g2,
               sh2\<lparr>shared_num_candidates :=
                     (shared_num_candidates sh2)[unat owner := shared_num_candidates sh2 ! unat owner + 1]\<rparr>,
               th2\<lparr>pc := Barrier_processed\<rparr>))
    \<and> (\<forall>pl3 tid3 g3 sh3 th3 c v.
          at_vec (shared_num_candidates sh3) (getLocalThreadIdX tid3) = Inr c \<and> c \<noteq> 0 \<and>
          hole_check pl3 tid3 (g3, sh3, th3) = Inr v \<longrightarrow> v = (g3, sh3, th3\<lparr>pc := Return\<rparr>))"
proof (intro conjI)
  show "\<forall>upd. process_load upd cfg pl tid (g, sh, th) = Inr (g, sh, th\<lparr>pc := Saturated owner\<rparr>)"
    using assms by (auto simp add: process_load_def Let_def)
  show "\<forall>g2 sh2 th2 v. saturated owner (g2, sh2, th2) = Inr v \<longrightarrow>
          v = (g2,
               sh2\<lparr>shared_num_candidates :=
                     (shared_num_candidates sh2)[unat owner := shared_num_candidates sh2 ! unat owner + 1]\<rparr>,
               th2\<lparr>pc := Barrier_processed\<rparr>)"
    by (auto dest!: saturated_Inr)
  show "\<forall>pl3 tid3 g3 sh3 th3 c v.
          at_vec (shared_num_candidates sh3) (getLocalThreadIdX tid3) = Inr c \<and> c \<noteq> 0 \<and>
          hole_check pl3 tid3 (g3, sh3, th3) = Inr v \<longrightarrow> v = (g3, sh3, th3\<lparr>pc := Return\<rparr>)"
    using hole_check_counted by blast
qed

theorem saturated_pair_is_counted_witness:
  "getLocalThreadIdX thread1_of_2 < shared_candidates_size race_enqueued
   \<and> at_vec (shared_candidates race_enqueued) (getLocalThreadIdX thread1_of_2) = Inr (1, 0)
   \<and> at_vec (n_tracks_per_seed (race_glob\<lparr>n_tracks_per_seed := [1]\<rparr>)) 0 = Inr 1
   \<and> max_num_branches_per_seed race_cfg \<le> 1
   \<and> process_load accept_all race_cfg race_payload thread1_of_2
        (race_glob\<lparr>n_tracks_per_seed := [1]\<rparr>, race_enqueued, launch_thread\<lparr>pc := Process_load\<rparr>) =
      Inr (race_glob\<lparr>n_tracks_per_seed := [1]\<rparr>, race_enqueued, launch_thread\<lparr>pc := Saturated 0\<rparr>)"
  using saturated_pair_is_counted
    [where tid = thread1_of_2 and sh = race_enqueued and meas_i = 1 and owner = 0 and og = 0
       and pl = race_payload and live = 1 and g = "race_glob\<lparr>n_tracks_per_seed := [1]\<rparr>" and seed = 0
       and in_par = "\<lparr>surface_link = 7, bound_vector = []\<rparr>"
       and meas = "\<lparr>meas_surface_link = 7, meas_dim = 2, measurement_id = 1\<rparr>"
       and n = 1 and cfg = race_cfg and th = "launch_thread\<lparr>pc := Process_load\<rparr>",
     THEN conjunct1, THEN spec, of accept_all]
  by (simp add: thread1_of_2_def race_enqueued_def race_shared_def race_payload_def race_glob_def
      race_cfg_def at_vec_def slot_seed_def)

text \<open>
  The counterexample to C1 as it is stated: in the run of \<open>exhausted_schedule\<close>
  thread 1 finds the seed of parameter set 1 saturated (after 22 steps it is at
  line 241), the candidate counter of parameter set 1 becomes 1 and not 0, and
  the kernel returns without a hole link and without an attempt at one: the
  seed's counter stays at 3 and the only new link is the measurement link of
  parameter set 0.
\<close>

theorem saturated_pair_no_hole_counterexample:
  "(case find_tracks accept_all exhausted_cfg exhausted_payload 2 (take 22 exhausted_schedule)
           (launch exhausted_glob [race_shared] 2) of
      Inl e \<Rightarrow> False
    | Inr s \<Rightarrow> map pc (threads s) = [Barrier_processed, Saturated 1]
               \<and> map shared_num_candidates (blocks s) = [[1, 0]])
   \<and> (case find_tracks accept_all exhausted_cfg exhausted_payload 2 exhausted_schedule
           (launch exhausted_glob [race_shared] 2) of
      Inl e \<Rightarrow> False
    | Inr s \<Rightarrow> map pc (threads s) = [Return, Return]
               \<and> map shared_num_candidates (blocks s) = [[1, 1]]
               \<and> n_tracks_per_seed (glob s) = [3]
               \<and> map meas_idx (links (glob s)) = [0, 1, 2]
               \<and> tips (glob s) = [])"
  by code_simp

text \<open>
  C2.  Take any run of the kernel, under any schedule, that is short enough
  for the seed's counter (an \<^verbatim>\<open>unsigned int\<close>) not to wrap around.  Along the run
  the links of the seed and the branches reserved for it grow by no more than
  the smaller of the counter and \<open>max_num_branches_per_seed\<close> grows.  So, when
  the links and the reserved branches of the seed are at most the smaller of
  the counter and the maximum at the launch, they are so after the run, and
  the measurement links of the seed do not exceed the maximum.  This holds at
  the start of the search, where there is no link and the counters are zero,
  and therefore at every point of every later step as long as the counters are
  not reset in between.  An acceptance whose increment finds the counter at or
  above the maximum is rejected: it appends nothing and goes to the barrier.
\<close>

theorem branches_per_seed_capped:
  assumes "find_tracks upd cfg pl bdim sched st = Inr st'"
    and "unat s < length (n_tracks_per_seed (glob st))"
    and "unat (n_tracks_per_seed (glob st) ! unat s) + length sched < 2 ^ 32"
  shows "n_links s (links (glob st')) + n_reserved s (threads st')
           + min (unat (n_tracks_per_seed (glob st) ! unat s)) (unat (max_num_branches_per_seed cfg))
         \<le> n_links s (links (glob st)) + n_reserved s (threads st)
           + min (unat (n_tracks_per_seed (glob st') ! unat s)) (unat (max_num_branches_per_seed cfg))
     \<and> (n_links s (links (glob st)) + n_reserved s (threads st)
           \<le> min (unat (n_tracks_per_seed (glob st) ! unat s)) (unat (max_num_branches_per_seed cfg)) \<longrightarrow>
         n_links s (links (glob st')) + n_reserved s (threads st')
           \<le> min (unat (n_tracks_per_seed (glob st') ! unat s)) (unat (max_num_branches_per_seed cfg))
         \<and> n_measurement_links s (links (glob st')) \<le> unat (max_num_branches_per_seed cfg))
     \<and> (\<forall>prev meas_i trk g sh th v.
           reserve_branch cfg prev s meas_i trk (g, sh, th) = Inr v
           \<and> \<not> n_tracks_per_seed g ! unat s < max_num_branches_per_seed cfg \<longrightarrow>
           links (fst v) = links g \<and> pc (snd (snd v)) = Barrier_processed)"
proof (intro conjI impI)
  show acc: "n_links s (links (glob st')) + n_reserved s (threads st')
           + min (unat (n_tracks_per_seed (glob st) ! unat s)) (unat (max_num_branches_per_seed cfg))
         \<le> n_links s (links (glob st)) + n_reserved s (threads st)
           + min (unat (n_tracks_per_seed (glob st') ! unat s)) (unat (max_num_branches_per_seed cfg))"
    using find_tracks_account[OF assms(1-3)] by blast
  assume "n_links s (links (glob st)) + n_reserved s (threads st)
           \<le> min (unat (n_tracks_per_seed (glob st) ! unat s)) (unat (max_num_branches_per_seed cfg))"
  with acc show inv: "n_links s (links (glob st')) + n_reserved s (threads st')
           \<le> min (unat (n_tracks_per_seed (glob st') ! unat s)) (unat (max_num_branches_per_seed cfg))"
    by linarith
  show "n_measurement_links s (links (glob st')) \<le> unat (max_num_branches_per_seed cfg)"
    using inv n_measurement_links_le[of s "links (glob st')"] by linarith
next
  show "\<forall>prev meas_i trk g sh th v.
           reserve_branch cfg prev s meas_i trk (g, sh, th) = Inr v
           \<and> \<not> n_tracks_per_seed g ! unat s < max_num_branches_per_seed cfg \<longrightarrow>
           links (fst v) = links g \<and> pc (snd (snd v)) = Barrier_processed"
    by (auto dest!: reserve_branch_Inr)
qed

theorem branches_per_seed_capped_witness:
  "\<exists>st'. find_tracks accept_all race_cfg race_payload 2 race_schedule (launch race_glob [race_shared] 2) = Inr st'
     \<and> unat (0 :: u32) < length (n_tracks_per_seed (glob (launch race_glob [race_shared] 2)))
     \<and> unat (n_tracks_per_seed (glob (launch race_glob [race_shared] 2)) ! unat (0 :: u32)) + length race_schedule < 2 ^ 32
     \<and> n_links 0 (links (glob (launch race_glob [race_shared] 2))) + n_reserved 0 (threads (launch race_glob [race_shared] 2)) = 0
     \<and> n_measurement_links 0 (links (glob st')) \<le> unat (max_num_branches_per_seed race_cfg)
     \<and> n_tracks_per_seed (glob st') = [2] \<and> unat (max_num_branches_per_seed race_cfg) = 1"
proof -
  from race_run obtain st' where
    run: "find_tracks accept_all race_cfg race_payload 2 race_schedule (launch race_glob [race_shared] 2) = Inr st'"
    and c: "n_tracks_per_seed (glob st') = [2]"
    by (elim exE conjE)
  have h2: "unat (0 :: u32) < length (n_tracks_per_seed (glob (launch race_glob [race_shared] 2)))"
    by (simp add: launch_def race_glob_def)
  have h3: "unat (n_tracks_per_seed (glob (launch race_glob [race_shared] 2)) ! unat (0 :: u32)) + length race_schedule < 2 ^ 32"
    by (simp add: launch_def race_glob_def race_schedule_def)
  have z: "n_links 0 (links (glob (launch race_glob [race_shared] 2))) + n_reserved 0 (threads (launch race_glob [race_shared] 2)) = 0"
    by (simp add: launch_def race_glob_def n_links_def n_reserved_def launch_thread_def)
  have h4: "n_links 0 (links (glob (launch race_glob [race_shared] 2))) + n_reserved 0 (threads (launch race_glob [race_shared] 2))
           \<le> min (unat (n_tracks_per_seed (glob (launch race_glob [race_shared] 2)) ! unat (0 :: u32))) (unat (max_num_branches_per_seed race_cfg))"
    using z by simp
  have m: "n_measurement_links 0 (links (glob st')) \<le> unat (max_num_branches_per_seed race_cfg)"
    by (rule branches_per_seed_capped[OF run h2 h3, THEN conjunct2, THEN conjunct1, THEN mp, OF h4, THEN conjunct2])
  have u: "unat (max_num_branches_per_seed race_cfg) = 1" by (simp add: race_cfg_def)
  show ?thesis by (intro exI[of _ st'] conjI) (rule run h2 h3 z m c u)+
qed

text \<open>
  C9.  Every step of the kernel leaves each seed's counter as it is or adds one
  to it.  Both increments (line 248 for a measurement, line 321 for a hole) are
  the whole of their step whenever the seed is one of the counters: the counter
  is incremented first, and its old value is then compared with the maximum, so
  that a rejected attempt has consumed an increment all the same.  In the run
  of \<open>race_schedule\<close>, on the measurement path, the counter ends at 2, above the
  maximum 1, with one link for the seed.  In the run of \<open>hole_race_schedule\<close>, on
  the hole path, the seed starts with two links and the counter 2; the two hole
  attempts take the counter to 4, above the maximum 3, and leave three links
  for the seed, the third being the hole of the attempt that was not rejected.
\<close>

theorem branch_counter_increment_only:
  "(kernel_step upd cfg pl bdim i st = Inr st' \<longrightarrow>
      length (n_tracks_per_seed (glob st')) = length (n_tracks_per_seed (glob st))
      \<and> (\<forall>k < length (n_tracks_per_seed (glob st)).
            n_tracks_per_seed (glob st') ! k = n_tracks_per_seed (glob st) ! k
            \<or> n_tracks_per_seed (glob st') ! k = n_tracks_per_seed (glob st) ! k + 1))
   \<and> (unat s < length (n_tracks_per_seed g) \<longrightarrow>
        reserve_branch cfg prev s meas_i trk (g, sh, th)
          = Inr (g\<lparr>n_tracks_per_seed := (n_tracks_per_seed g)[unat s := n_tracks_per_seed g ! unat s + 1]\<rparr>, sh,
                 th\<lparr>pc := (if n_tracks_per_seed g ! unat s < max_num_branches_per_seed cfg
                            then Append_link prev s meas_i trk else Barrier_processed)\<rparr>)
        \<and> hole_reserve cfg prev s (g, sh, th)
          = Inr (g\<lparr>n_tracks_per_seed := (n_tracks_per_seed g)[unat s := n_tracks_per_seed g ! unat s + 1]\<rparr>, sh,
                 th\<lparr>pc := (if n_tracks_per_seed g ! unat s < max_num_branches_per_seed cfg
                            then Hole_commit prev s else Return)\<rparr>))
   \<and> (\<not> unat s < length (n_tracks_per_seed g) \<longrightarrow>
        reserve_branch cfg prev s meas_i trk (g, sh, th) = Inl Out_of_range
        \<and> hole_reserve cfg prev s (g, sh, th) = Inl Out_of_range)
   \<and> (\<exists>st2. find_tracks accept_all race_cfg race_payload 2 race_schedule (launch race_glob [race_shared] 2) = Inr st2
         \<and> returned st2 \<and> n_tracks_per_seed (glob st2) = [2] \<and> max_num_branches_per_seed race_cfg = 1
         \<and> n_links 0 (links (glob st2)) = 1)
   \<and> (\<exists>st3. find_tracks accept_all exhausted_cfg hole_race_payload 2 hole_race_schedule
                (launch exhausted_glob [race_shared] 2) = Inr st3
         \<and> returned st3 \<and> n_tracks_per_seed (glob st3) = [4] \<and> max_num_branches_per_seed exhausted_cfg = 3
         \<and> n_links 0 (links (glob st3)) = 3 \<and> n_measurement_links 0 (links (glob st3)) = 2
         \<and> n_links 0 (links exhausted_glob) = 2 \<and> n_tracks_per_seed exhausted_glob = [2])"
proof (intro conjI impI)
  assume "kernel_step upd cfg pl bdim i st = Inr st'"
  from kernel_step_counters[OF this]
  show "length (n_tracks_per_seed (glob st')) = length (n_tracks_per_seed (glob st))"
    and "\<forall>k < length (n_tracks_per_seed (glob st)).
            n_tracks_per_seed (glob st') ! k = n_tracks_per_seed (glob st) ! k
            \<or> n_tracks_per_seed (glob st') ! k = n_tracks_per_seed (glob st) ! k + 1"
    by blast+
next
  assume "unat s < length (n_tracks_per_seed g)"
  then show "reserve_branch cfg prev s meas_i trk (g, sh, th)
          = Inr (g\<lparr>n_tracks_per_seed := (n_tracks_per_seed g)[unat s := n_tracks_per_seed g ! unat s + 1]\<rparr>, sh,
                 th\<lparr>pc := (if n_tracks_per_seed g ! unat s < max_num_branches_per_seed cfg
                            then Append_link prev s meas_i trk else Barrier_processed)\<rparr>)"
    and "hole_reserve cfg prev s (g, sh, th)
          = Inr (g\<lparr>n_tracks_per_seed := (n_tracks_per_seed g)[unat s := n_tracks_per_seed g ! unat s + 1]\<rparr>, sh,
                 th\<lparr>pc := (if n_tracks_per_seed g ! unat s < max_num_branches_per_seed cfg
                            then Hole_commit prev s else Return)\<rparr>)"
    by (simp_all add: reserve_branch_def hole_reserve_def fetch_add_vec_def)
next
  assume "\<not> unat s < length (n_tracks_per_seed g)"
  then show "reserve_branch cfg prev s meas_i trk (g, sh, th) = Inl Out_of_range"
    and "hole_reserve cfg prev s (g, sh, th) = Inl Out_of_range"
    by (simp_all add: reserve_branch_def hole_reserve_def fetch_add_vec_def)
next
  from race_run obtain st2 where
    a: "find_tracks accept_all race_cfg race_payload 2 race_schedule (launch race_glob [race_shared] 2) = Inr st2"
    and b: "returned st2" and c: "n_tracks_per_seed (glob st2) = [2]" and d: "map seed_idx (links (glob st2)) = [0]"
    by (elim exE conjE)
  from d have e: "n_links 0 (links (glob st2)) = 1"
    by (auto simp: n_links_def)
  have f: "max_num_branches_per_seed race_cfg = 1" by (simp add: race_cfg_def)
  show "\<exists>st2. find_tracks accept_all race_cfg race_payload 2 race_schedule (launch race_glob [race_shared] 2) = Inr st2
         \<and> returned st2 \<and> n_tracks_per_seed (glob st2) = [2] \<and> max_num_branches_per_seed race_cfg = 1
         \<and> n_links 0 (links (glob st2)) = 1"
    by (intro exI[of _ st2] conjI) (rule a b c e f)+
next
  from hole_race_run obtain st3 where
    a: "find_tracks accept_all exhausted_cfg hole_race_payload 2 hole_race_schedule
          (launch exhausted_glob [race_shared] 2) = Inr st3"
    and b: "returned st3" and c: "n_tracks_per_seed (glob st3) = [4]"
    and m: "map meas_idx (links (glob st3)) = [0, 1, hole_meas_idx]"
    and d: "map seed_idx (links (glob st3)) = [0, 0, 0]"
    by (elim exE conjE)
  from d obtain l0 l1 l2 where ls: "links (glob st3) = [l0, l1, l2]"
    and sd: "seed_idx l0 = 0" "seed_idx l1 = 0" "seed_idx l2 = 0"
    by (auto simp: map_eq_Cons_conv)
  have e: "n_links 0 (links (glob st3)) = 3"
    using ls sd by (simp add: n_links_def)
  have h: "n_measurement_links 0 (links (glob st3)) = 2"
    using m ls sd by (simp add: n_measurement_links_def hole_meas_idx_def)
  have f: "max_num_branches_per_seed exhausted_cfg = 3" by (simp add: exhausted_cfg_def)
  have i: "n_links 0 (links exhausted_glob) = 2" "n_tracks_per_seed exhausted_glob = [2]"
    by (simp_all add: exhausted_glob_def n_links_def)
  show "\<exists>st3. find_tracks accept_all exhausted_cfg hole_race_payload 2 hole_race_schedule
                (launch exhausted_glob [race_shared] 2) = Inr st3
         \<and> returned st3 \<and> n_tracks_per_seed (glob st3) = [4] \<and> max_num_branches_per_seed exhausted_cfg = 3
         \<and> n_links 0 (links (glob st3)) = 3 \<and> n_measurement_links 0 (links (glob st3)) = 2
         \<and> n_links 0 (links exhausted_glob) = 2 \<and> n_tracks_per_seed exhausted_glob = [2]"
    by (intro exI[of _ st3] conjI) (rule a b c e f h i)+
qed

theorem branch_counter_increment_only_witness:
  "unat (0 :: u32) < length (n_tracks_per_seed (exhausted_glob\<lparr>n_tracks_per_seed := [3]\<rparr>))
   \<and> hole_reserve exhausted_cfg 1 0
        (exhausted_glob\<lparr>n_tracks_per_seed := [3]\<rparr>, race_shared, launch_thread\<lparr>pc := Hole_reserve 1 0\<rparr>)
      = Inr (exhausted_glob\<lparr>n_tracks_per_seed := [4]\<rparr>, race_shared, launch_thread\<lparr>pc := Return\<rparr>)
   \<and> reserve_branch exhausted_cfg 1 0 3 \<lparr>filtered_chi2 = 1, filtered = \<lparr>surface_link = 9, bound_vector = []\<rparr>\<rparr>
        (exhausted_glob\<lparr>n_tracks_per_seed := [3]\<rparr>, race_shared, launch_thread\<lparr>pc := Hole_reserve 1 0\<rparr>)
      = Inr (exhausted_glob\<lparr>n_tracks_per_seed := [4]\<rparr>, race_shared, launch_thread\<lparr>pc := Barrier_processed\<rparr>)
   \<and> hole_reserve exhausted_cfg 0 0
        (exhausted_glob, race_shared, launch_thread\<lparr>pc := Hole_reserve 0 0\<rparr>)
      = Inr (exhausted_glob\<lparr>n_tracks_per_seed := [3]\<rparr>, race_shared, launch_thread\<lparr>pc := Hole_commit 0 0\<rparr>)"
proof -
  have h: "unat (0 :: u32) < length (n_tracks_per_seed (exhausted_glob\<lparr>n_tracks_per_seed := [3]\<rparr>))"
    "unat (0 :: u32) < length (n_tracks_per_seed exhausted_glob)"
    by (simp_all add: exhausted_glob_def)
  have 1: "hole_reserve exhausted_cfg 1 0
        (exhausted_glob\<lparr>n_tracks_per_seed := [3]\<rparr>, race_shared, launch_thread\<lparr>pc := Hole_reserve 1 0\<rparr>)
      = Inr (exhausted_glob\<lparr>n_tracks_per_seed := [4]\<rparr>, race_shared, launch_thread\<lparr>pc := Return\<rparr>)"
    using branch_counter_increment_only[where cfg = exhausted_cfg and s = 0 and g = "exhausted_glob\<lparr>n_tracks_per_seed := [3]\<rparr>"
          and prev = 1 and sh = race_shared and th = "launch_thread\<lparr>pc := Hole_reserve 1 0\<rparr>",
        THEN conjunct2, THEN conjunct1, THEN mp, OF h(1), THEN conjunct2]
    by (simp add: exhausted_cfg_def)
  have 2: "reserve_branch exhausted_cfg 1 0 3 \<lparr>filtered_chi2 = 1, filtered = \<lparr>surface_link = 9, bound_vector = []\<rparr>\<rparr>
        (exhausted_glob\<lparr>n_tracks_per_seed := [3]\<rparr>, race_shared, launch_thread\<lparr>pc := Hole_reserve 1 0\<rparr>)
      = Inr (exhausted_glob\<lparr>n_tracks_per_seed := [4]\<rparr>, race_shared, launch_thread\<lparr>pc := Barrier_processed\<rparr>)"
    using branch_counter_increment_only[where cfg = exhausted_cfg and s = 0 and g = "exhausted_glob\<lparr>n_tracks_per_seed := [3]\<rparr>"
          and prev = 1 and meas_i = 3
          and trk = "\<lparr>filtered_chi2 = 1, filtered = \<lparr>surface_link = 9, bound_vector = []\<rparr>\<rparr>"
          and sh = race_shared and th = "launch_thread\<lparr>pc := Hole_reserve 1 0\<rparr>",
        THEN conjunct2, THEN conjunct1, THEN mp, OF h(1), THEN conjunct1]
    by (simp add: exhausted_cfg_def)
  have 3: "hole_reserve exhausted_cfg 0 0
        (exhausted_glob, race_shared, launch_thread\<lparr>pc := Hole_reserve 0 0\<rparr>)
      = Inr (exhausted_glob\<lparr>n_tracks_per_seed := [3]\<rparr>, race_shared, launch_thread\<lparr>pc := Hole_commit 0 0\<rparr>)"
    using branch_counter_increment_only[where cfg = exhausted_cfg and s = 0 and g = exhausted_glob
          and prev = 0 and sh = race_shared and th = "launch_thread\<lparr>pc := Hole_reserve 0 0\<rparr>",
        THEN conjunct2, THEN conjunct1, THEN mp, OF h(2), THEN conjunct2]
    by (simp add: exhausted_cfg_def exhausted_glob_def)
  from h(1) 1 2 3 show ?thesis by (intro conjI)
qed



text \<open>
  C5 (the code differs).  The scenario of the claim: one seed, no measurement
  at all, one step, one hole allowed, no minimal length; a block of one thread,
  whose schedule is determined.  The claim expects one tip at step 0, at the
  root of the seed, with one hole.  The hole inserter reserves a branch for the
  seed (the counter becomes 1) and, the step being the last one, ends the
  branch: after seven steps the thread is at the tip-recording site with the
  tip \<open>prev_links_idx + 0 = 0\<close>, while the link table is empty, so that there is
  no link for the tip to point at.  The eighth step fails the assertion
  \<open>step > 0\<close> of line 333, whose comment names this very case; no tip is
  recorded.  This is the defect of C6.
\<close>

theorem single_seed_step0_assert:
  "max_num_skipping_per_cand single_seed_cfg = 1 \<and> max_track_candidates_per_track single_seed_cfg = 1
   \<and> min_track_candidates_per_track single_seed_cfg = 0
   \<and> measurements_view single_seed_payload = [] \<and> n_in_params single_seed_payload = 1
   \<and> payload_step single_seed_payload = 0
   \<and> (case find_tracks accept_all single_seed_cfg single_seed_payload 1 (replicate 7 0)
           (launch single_seed_glob [single_seed_shared] 1) of
      Inl e \<Rightarrow> False
    | Inr st \<Rightarrow> links (glob st) = [] \<and> tips (glob st) = [] \<and> n_tracks_per_seed (glob st) = [1]
                \<and> map pc (threads st) = [Hole_commit 0 0])
   \<and> find_tracks accept_all single_seed_cfg single_seed_payload 1 (replicate 8 0)
        (launch single_seed_glob [single_seed_shared] 1) = Inl Assertion_failed"
  by code_simp

text \<open>
  C3.  On a well-formed link table, for every tip that is an index of the
  table and whose track fits the capacity reserved for it, \<^verbatim>\<open>build_tracks\<close>
  returns without a fault, whatever the arithmetic of the scalars.  The
  indices of the links from the root to the tip are strictly increasing, so
  that no index occurs twice on the way back from the tip; the emitted
  measurements are those of the links on this way that are not holes, the
  oldest first; their number is \<open>step + 1 - n_skipped\<close> of the tip's link, the
  size the track was resized to.
\<close>

theorem build_tracks_emits_measured_branch:
  assumes "wf_links pl" and "unat gi < length (tips_view pl)"
    and "tip = unat (tips_view pl ! unat gi)" and "tip < length (links_view pl)"
    and "step (links_view pl ! tip) + 1 - n_skipped (links_view pl ! tip) \<le> cands_capacity pl"
  shows "\<exists>tc'. build_tracks ar prob gi pl tc = Some (Inr tc')
     \<and> cands_per_track tc'
         = map (\<lambda>i. bt_measurements_view pl ! unat (meas_idx (links_view pl ! i)))
             (filter (\<lambda>i. \<not> is_hole pl (links_view pl ! i)) (ancestry (links_view pl) tip))
     \<and> length (cands_per_track tc')
         = unat (step (links_view pl ! tip) + 1 - n_skipped (links_view pl ! tip))
     \<and> sorted_wrt (<) (ancestry (links_view pl) tip) \<and> distinct (ancestry (links_view pl) tip)
     \<and> last (ancestry (links_view pl) tip) = tip"
proof -
  have b: "build_tracks ar prob gi pl tc = Some (Inr (assembled ar prob pl tip 0 0 [] tc))"
    using build_tracks_assembled[OF assms(1,2)] assms(3,4,5) by simp
  have c: "cands_per_track (assembled ar prob pl tip 0 0 [] tc)
         = map (\<lambda>i. bt_measurements_view pl ! unat (meas_idx (links_view pl ! i)))
             (filter (\<lambda>i. \<not> is_hole pl (links_view pl ! i)) (ancestry (links_view pl) tip))"
    by (simp add: assembled_def Let_def measured_def)
  have l: "length (cands_per_track (assembled ar prob pl tip 0 0 [] tc))
         = unat (step (links_view pl ! tip) + 1 - n_skipped (links_view pl ! tip))"
    using n_cands_measured[OF assms(1,4)] by (simp add: c measured_def)
  have s: "sorted_wrt (<) (ancestry (links_view pl) tip)" "last (ancestry (links_view pl) tip) = tip"
    using ancestry_sorted[OF assms(1,4)] by simp_all
  have d: "distinct (ancestry (links_view pl) tip)"
    using s(1) by (simp add: strict_sorted_iff)
  show ?thesis
    by (intro exI[of _ "assembled ar prob pl tip 0 0 [] tc"] conjI) (rule b c l s d)+
qed

theorem build_tracks_emits_measured_branch_witness:
  "wf_links branch_payload \<and> unat (0 :: u32) < length (tips_view branch_payload)
   \<and> (2 :: nat) = unat (tips_view branch_payload ! unat (0 :: u32))
   \<and> (2 :: nat) < length (links_view branch_payload)
   \<and> step (links_view branch_payload ! 2) + 1 - n_skipped (links_view branch_payload ! 2)
        \<le> cands_capacity branch_payload
   \<and> (\<exists>tc'. build_tracks whole_arith (\<lambda>c n. 0) 0 branch_payload blank_candidate = Some (Inr tc')
         \<and> map measurement_id (cands_per_track tc') = [0, 1])"
proof -
  from build_tracks_emits_measured_branch[OF wf_branch_payload tip_branch_payload,
      of whole_arith "\<lambda>c n. 0" blank_candidate]
  obtain tc' where b: "build_tracks whole_arith (\<lambda>c n. 0) 0 branch_payload blank_candidate = Some (Inr tc')"
    and c: "cands_per_track tc'
         = map (\<lambda>i. bt_measurements_view branch_payload ! unat (meas_idx (links_view branch_payload ! i)))
             (filter (\<lambda>i. \<not> is_hole branch_payload (links_view branch_payload ! i))
                (ancestry (links_view branch_payload) 2))"
    by (elim exE conjE)
  have "map measurement_id (cands_per_track tc') = [0, 1]"
    unfolding c emitted_branch_payload by (simp add: branch_payload_def)
  with b have "\<exists>tc'. build_tracks whole_arith (\<lambda>c n. 0) 0 branch_payload blank_candidate = Some (Inr tc')
         \<and> map measurement_id (cands_per_track tc') = [0, 1]"
    by (intro exI[of _ tc'] conjI)
  with wf_branch_payload tip_branch_payload show ?thesis by (intro conjI)
qed



end
